theory Spec2Isabelle
  imports Complex_Main "HOL-Library.Stream" "HOL-Library.Log_Nat"
begin

section \<open>Outcomes of a call\<close>

text \<open>
  The exceptions that the modelled code of \<^verbatim>\<open>snakev0.py\<close> can raise, and the three ways a
  call can end: it returns a value, it raises, or it never returns (the resampling loop
  of \<^verbatim>\<open>spawn_food\<close>).
\<close>

datatype error = SystemExit | IndexError | ZeroDivisionError | OverflowError | ValueError | MemoryError

datatype 'a outcome = Returns 'a | Raises error | Diverges

section \<open>The random generator\<close>

text \<open>
  Python's module-level generator is modelled as the stream of the raw numbers it will
  produce. \<^verbatim>\<open>random.randrange(n)\<close> consumes one of them and returns a value in
  \<open>[0, n)\<close>; every sequence of in-range results arises from some stream. The game calls
  it with the grid width 30 and the grid height 20 only, so its \<^verbatim>\<open>ValueError\<close> for
  \<open>n \<le> 0\<close> is not a branch of the model.
\<close>

type_synonym rng = "nat stream"

definition randrange :: "int \<Rightarrow> rng \<Rightarrow> int \<times> rng" where
  "randrange n rs = (int (shd rs mod nat n), stl rs)"

section \<open>SnakeGame: the state\<close>

type_synonym pos = "int \<times> int"

datatype mode = Menu | Playing | GameOver

text \<open>
  The attributes of \<^verbatim>\<open>SnakeGame\<close> that the game logic reads and writes. \<open>state\<close> is
  the string attribute with the three values \<^verbatim>\<open>'menu'\<close>, \<^verbatim>\<open>'playing'\<close>,
  \<^verbatim>\<open>'gameover'\<close>.
\<close>

record game =
  state :: mode
  snake :: "pos list"
  direction :: pos
  next_direction :: pos
  food :: pos
  score :: int
  game_over :: bool
  frame_count :: int

text \<open>The parameters set once in \<^verbatim>\<open>__init__\<close> (lines 100 to 107) and never assigned again.\<close>

definition fps :: int where
  "fps = 60"

definition move_rate :: int where
  "move_rate = 10"

definition frames_per_move :: int where
  "frames_per_move = fps div move_rate"

definition cell_size :: int where
  "cell_size = 20"

definition grid_width :: int where
  "grid_width = 600 div cell_size"

definition grid_height :: int where
  "grid_height = 400 div cell_size"

text \<open>The two tones of \<^verbatim>\<open>SoundManager\<close>; a call returns the list of tones it triggered.\<close>

datatype tone = Eat | Death

section \<open>spawn_food and reset\<close>

text \<open>
  \<^verbatim>\<open>spawn_food\<close> (lines 126 to 132) draws a cell until one is not on the snake. The loop
  has no bound: \<open>None\<close> is the run that never leaves it.
\<close>

partial_function (option) spawn_food :: "rng \<Rightarrow> game \<Rightarrow> (game \<times> rng) option" where
  "spawn_food rs g =
     (let xr = randrange grid_width rs;
          yr = randrange grid_height (snd xr);
          pos = (fst xr, fst yr)
      in if pos \<notin> set (snake g) then Some (g\<lparr>food := pos\<rparr>, snd yr)
         else spawn_food (snd yr) g)"

text \<open>\<^verbatim>\<open>reset\<close> (lines 116 to 124).\<close>

definition reset :: "rng \<Rightarrow> game \<Rightarrow> (game \<times> rng) option" where
  "reset rs g =
     (case spawn_food rs (g\<lparr>snake := [(grid_width div 2, grid_height div 2)],
                              direction := (1, 0),
                              next_direction := (1, 0)\<rparr>) of
        None \<Rightarrow> None
      | Some (g1, rs1) \<Rightarrow> Some (g1\<lparr>score := 0, game_over := False, frame_count := 0\<rparr>, rs1))"

text \<open>
  \<^verbatim>\<open>__init__\<close> (lines 99 to 114), as far as the game state goes: the mode is the menu,
  the frame counter is 0, and \<^verbatim>\<open>reset\<close> creates every other attribute. The values given
  here to the attributes that do not exist yet are all overwritten by \<open>reset\<close>.
\<close>

definition init :: "rng \<Rightarrow> (game \<times> rng) option" where
  "init rs = reset rs \<lparr>state = Menu, snake = [], direction = (0, 0), next_direction = (0, 0),
                        food = (0, 0), score = 0, game_over = False, frame_count = 0\<rparr>"

section \<open>update: one simulation step\<close>

text \<open>
  \<^verbatim>\<open>update\<close> (lines 183 to 206). \<^verbatim>\<open>self.snake[0]\<close> raises on an empty list;
  \<^verbatim>\<open>insert(0, new_head)\<close> followed by \<^verbatim>\<open>pop()\<close> is \<open>butlast\<close> of the extended list.
\<close>

definition update :: "rng \<Rightarrow> game \<Rightarrow> (game \<times> rng \<times> tone list) outcome" where
  "update rs g0 =
     (let g = g0\<lparr>direction := next_direction g0\<rparr> in
      case snake g of
        [] \<Rightarrow> Raises IndexError
      | head # _ \<Rightarrow>
          let new_head = (fst head + fst (direction g), snd head + snd (direction g)) in
          if new_head \<in> set (snake g)
             \<or> \<not> (0 \<le> fst new_head \<and> fst new_head < grid_width)
             \<or> \<not> (0 \<le> snd new_head \<and> snd new_head < grid_height)
          then Returns (g\<lparr>game_over := True, state := GameOver\<rparr>, rs, [Death])
          else
            let g1 = g\<lparr>snake := new_head # snake g\<rparr> in
            if new_head = food g1
            then (case spawn_food rs (g1\<lparr>score := score g1 + 1\<rparr>) of
                    None \<Rightarrow> Diverges
                  | Some (g2, rs2) \<Rightarrow> Returns (g2, rs2, [Eat]))
            else Returns (g1\<lparr>snake := butlast (snake g1)\<rparr>, rs, []))"

section \<open>handle_input: one poll\<close>

text \<open>
  The events of \<^verbatim>\<open>pygame.event.get()\<close> as far as the code tells them apart: the key
  constants it names and any other key, the three event types it names and any other.
\<close>

datatype key = K_UP | K_DOWN | K_LEFT | K_RIGHT | K_w | K_s | K_a | K_d
  | K_y | K_n | K_RETURN | K_other nat

datatype event = QUIT | KEYDOWN key | MOUSEBUTTONDOWN | OTHER nat

fun is_KEYDOWN :: "event \<Rightarrow> bool" where
  "is_KEYDOWN (KEYDOWN k) = True"
| "is_KEYDOWN ev = False"

text \<open>
  Lines 141 to 149: the menu and game-over branch of the event loop. \<^verbatim>\<open>_quit\<close> ends in
  \<^verbatim>\<open>sys.exit()\<close>, which raises \<^verbatim>\<open>SystemExit\<close>.
\<close>

definition menu_input :: "event \<Rightarrow> game \<times> rng \<Rightarrow> (game \<times> rng) outcome" where
  "menu_input ev s =
     (let g = fst s; rs = snd s in
      if state g = Menu \<and> (is_KEYDOWN ev \<or> ev = MOUSEBUTTONDOWN)
      then (case reset rs (g\<lparr>state := Playing\<rparr>) of
              None \<Rightarrow> Diverges | Some s1 \<Rightarrow> Returns s1)
      else if state g = GameOver \<and> is_KEYDOWN ev
      then (if ev = KEYDOWN K_y \<or> ev = KEYDOWN K_RETURN
            then (case reset rs (g\<lparr>state := Playing\<rparr>) of
                    None \<Rightarrow> Diverges | Some s1 \<Rightarrow> Returns s1)
            else if ev = KEYDOWN K_n then Raises SystemExit
            else Returns s)
      else Returns s)"

text \<open>Lines 152 to 160: the keyboard vote, accepted on the axis the snake is not moving on.\<close>

definition key_input :: "event \<Rightarrow> game \<Rightarrow> game" where
  "key_input ev g =
     (case ev of
        KEYDOWN k \<Rightarrow>
          if state g = Playing then
            (if k \<in> {K_UP, K_w} \<and> snd (direction g) = 0 then g\<lparr>next_direction := (0, - 1)\<rparr>
             else if k \<in> {K_DOWN, K_s} \<and> snd (direction g) = 0 then g\<lparr>next_direction := (0, 1)\<rparr>
             else if k \<in> {K_LEFT, K_a} \<and> fst (direction g) = 0 then g\<lparr>next_direction := (- 1, 0)\<rparr>
             else if k \<in> {K_RIGHT, K_d} \<and> fst (direction g) = 0 then g\<lparr>next_direction := (1, 0)\<rparr>
             else g)
          else g
      | _ \<Rightarrow> g)"

text \<open>The body of the event loop for one event (lines 137 to 160).\<close>

definition handle_event :: "event \<Rightarrow> game \<times> rng \<Rightarrow> (game \<times> rng) outcome" where
  "handle_event ev s =
     (if ev = QUIT then Raises SystemExit
      else case menu_input ev s of
             Returns (g1, rs1) \<Rightarrow> Returns (key_input ev g1, rs1)
           | Raises e \<Rightarrow> Raises e
           | Diverges \<Rightarrow> Diverges)"

fun event_loop :: "event list \<Rightarrow> game \<times> rng \<Rightarrow> (game \<times> rng) outcome" where
  "event_loop [] s = Returns s"
| "event_loop (ev # evs) s =
     (case handle_event ev s of
        Returns s1 \<Rightarrow> event_loop evs s1
      | Raises e \<Rightarrow> Raises e
      | Diverges \<Rightarrow> Diverges)"

text \<open>
  Lines 170 to 176: the pointer's vote from the offset between pointer and head centre.
  \<^verbatim>\<open>cell_size / 2\<close> is a true division, so the offsets are floats; they are multiples of
  one half far below \<open>2^53\<close> and are computed exactly, hence the reals here.
\<close>

definition mouse_dir :: "int \<times> int \<Rightarrow> pos \<Rightarrow> pos" where
  "mouse_dir m head =
     (let head_px = real_of_int (fst head * cell_size) + real_of_int cell_size / 2;
          head_py = real_of_int (snd head * cell_size) + real_of_int cell_size / 2;
          dx = real_of_int (fst m) - head_px;
          dy = real_of_int (snd m) - head_py
      in if \<bar>dx\<bar> > \<bar>dy\<bar> then (if dx > 0 then 1 else - 1, 0)
         else (0, if dy > 0 then 1 else - 1))"

text \<open>Lines 163 to 180: the pointer part of the poll.\<close>

definition mouse_input :: "int \<times> int \<Rightarrow> game \<Rightarrow> game outcome" where
  "mouse_input m g =
     (if state g = Playing then
        (case snake g of
           [] \<Rightarrow> Raises IndexError
         | head # _ \<Rightarrow>
             let new_dir = mouse_dir m head in
             if new_dir \<noteq> (- fst (direction g), - snd (direction g))
             then Returns (g\<lparr>next_direction := new_dir\<rparr>)
             else Returns g)
      else Returns g)"

text \<open>
  \<^verbatim>\<open>handle_input\<close> (lines 134 to 180): the events of this poll in order, then the
  pointer position.
\<close>

definition handle_input :: "event list \<Rightarrow> int \<times> int \<Rightarrow> rng \<Rightarrow> game \<Rightarrow> (game \<times> rng) outcome" where
  "handle_input evs m rs g =
     (case event_loop evs (g, rs) of
        Returns (g1, rs1) \<Rightarrow>
          (case mouse_input m g1 of
             Returns g2 \<Rightarrow> Returns (g2, rs1)
           | Raises e \<Rightarrow> Raises e
           | Diverges \<Rightarrow> Diverges)
      | Raises e \<Rightarrow> Raises e
      | Diverges \<Rightarrow> Diverges)"

section \<open>run: the main loop\<close>

text \<open>
  One pass through the body of the \<^verbatim>\<open>while True\<close> of \<^verbatim>\<open>run\<close> (lines 266 to 276), on
  the events and the pointer position this pass polls. \<^verbatim>\<open>draw\<close> and \<^verbatim>\<open>clock.tick\<close>
  do not touch the game state. The result carries the tones triggered and whether
  \<^verbatim>\<open>update\<close> was called.
\<close>

definition run_frame ::
  "event list \<times> (int \<times> int) \<Rightarrow> rng \<Rightarrow> game \<Rightarrow> (game \<times> rng \<times> tone list \<times> bool) outcome" where
  "run_frame inp rs g =
     (case handle_input (fst inp) (snd inp) rs g of
        Returns (g1, rs1) \<Rightarrow>
          if state g1 = Playing then
            (let g2 = g1\<lparr>frame_count := frame_count g1 + 1\<rparr> in
             if frame_count g2 \<ge> frames_per_move
             then (case update rs1 (g2\<lparr>frame_count := 0\<rparr>) of
                     Returns (g3, rs3, ts) \<Rightarrow> Returns (g3, rs3, ts, True)
                   | Raises e \<Rightarrow> Raises e
                   | Diverges \<Rightarrow> Diverges)
             else Returns (g2, rs1, [], False))
          else Returns (g1, rs1, [], False)
      | Raises e \<Rightarrow> Raises e
      | Diverges \<Rightarrow> Diverges)"

text \<open>
  The loop itself runs until an exception ends it. \<open>run\<close> is its run over the polls
  of finitely many passes; it returns the state after the last one, the tones triggered
  and the number of calls of \<^verbatim>\<open>update\<close>.
\<close>

fun run ::
  "(event list \<times> (int \<times> int)) list \<Rightarrow> rng \<Rightarrow> game \<Rightarrow> (game \<times> rng \<times> tone list \<times> nat) outcome" where
  "run [] rs g = Returns (g, rs, [], 0)"
| "run (inp # inps) rs g =
     (case run_frame inp rs g of
        Returns (g1, rs1, ts1, stepped) \<Rightarrow>
          (case run inps rs1 g1 of
             Returns (g2, rs2, ts2, n) \<Rightarrow>
               Returns (g2, rs2, ts1 @ ts2, (if stepped then 1 else 0) + n)
           | Raises e \<Rightarrow> Raises e
           | Diverges \<Rightarrow> Diverges)
      | Raises e \<Rightarrow> Raises e
      | Diverges \<Rightarrow> Diverges)"

section \<open>Binary64 arithmetic\<close>

text \<open>
  A Python \<^verbatim>\<open>float\<close> is an IEEE 754 binary64 number. Its finite values are the reals
  \<open>m * 2 ^ e\<close> with \<open>\<bar>m\<bar> < 2 ^ 53\<close> and \<open>- 1074 \<le> e\<close>, of magnitude below \<open>2 ^ 1024\<close>.
  \<open>pow2 k\<close> is \<open>2 ^ k\<close> for an integer \<open>k\<close>, and \<open>binade x\<close> is the exponent \<open>k\<close> with
  \<open>2 ^ k \<le> \<bar>x\<bar> < 2 ^ (k + 1)\<close>, computed from the bit length of an integer so that it
  can be evaluated.
\<close>

definition pow2 :: "int \<Rightarrow> real" where
  "pow2 k = (if 0 \<le> k then 2 ^ nat k else 1 / 2 ^ nat (- k))"

definition binade :: "real \<Rightarrow> int" where
  "binade x = (if 1 \<le> \<bar>x\<bar> then bitlen \<lfloor>\<bar>x\<bar>\<rfloor> - 1 else - bitlen (\<lceil>1 / \<bar>x\<bar>\<rceil> - 1))"

text \<open>
  Rounding to the nearest integer, ties to the even one: the rule of the hardware for a
  significand, and of Python's \<^verbatim>\<open>round\<close> on a float.
\<close>

definition round_half_even :: "real \<Rightarrow> int" where
  "round_half_even x =
     (let f = \<lfloor>x\<rfloor>; r = x - of_int f
      in if r < 1 / 2 then f else if r > 1 / 2 then f + 1 else if even f then f else f + 1)"

text \<open>
  \<open>rnd_real x\<close> is the multiple of the unit in the last place of \<open>x\<close> that is nearest to
  \<open>x\<close>, ties to the even significand. The unit is \<open>2 ^ (binade x - 52)\<close>, and \<open>2 ^ (- 1074)\<close>
  in the subnormal range. The exponent is not bounded from above here: overflow is decided
  on the rounded value, in \<open>rnd\<close> below.
\<close>

definition ulp_exp :: "real \<Rightarrow> int" where
  "ulp_exp x = max (binade x - 52) (- 1074)"

definition rnd_real :: "real \<Rightarrow> real" where
  "rnd_real x =
     (if x = 0 then 0
      else of_int (round_half_even (x / pow2 (ulp_exp x))) * pow2 (ulp_exp x))"

text \<open>
  The values of a float: a finite number, the two infinities, and NaN. The two zeros are
  one value: the code compares with \<^verbatim>\<open>> 0\<close>, converts with \<^verbatim>\<open>int\<close> and divides with
  \<^verbatim>\<open>/\<close>, which raises on either zero, so the sign of a zero cannot be observed. \<open>rnd\<close> is
  the rounding of an exact result to a float: a rounded magnitude of \<open>2 ^ 1024\<close> or more is
  an infinity.
\<close>

datatype pyfloat = Finite real | PInf | NInf | NaN

definition rnd :: "real \<Rightarrow> pyfloat" where
  "rnd x =
     (let r = rnd_real x
      in if pow2 1024 \<le> r then PInf else if r \<le> - pow2 1024 then NInf else Finite r)"

fun sign_of :: "pyfloat \<Rightarrow> real" where
  "sign_of (Finite a) = a"
| "sign_of PInf = 1"
| "sign_of NInf = - 1"
| "sign_of NaN = 0"

definition inf_with_sign :: "real \<Rightarrow> pyfloat" where
  "inf_with_sign s = (if s = 0 then NaN else if 0 < s then PInf else NInf)"

text \<open>
  The operators \<^verbatim>\<open>*\<close>, \<^verbatim>\<open>+\<close>, \<^verbatim>\<open>-\<close> and \<^verbatim>\<open>/\<close> on two floats: the exact result, rounded
  once. An infinity times zero, and the difference of two equal infinities, is NaN. Python
  raises \<^verbatim>\<open>ZeroDivisionError\<close> when the divisor is zero, whatever the dividend.
\<close>

fun fmul :: "pyfloat \<Rightarrow> pyfloat \<Rightarrow> pyfloat" where
  "fmul NaN y = NaN"
| "fmul x NaN = NaN"
| "fmul (Finite a) (Finite b) = rnd (a * b)"
| "fmul x y = inf_with_sign (sign_of x * sign_of y)"

fun fadd :: "pyfloat \<Rightarrow> pyfloat \<Rightarrow> pyfloat" where
  "fadd NaN y = NaN"
| "fadd x NaN = NaN"
| "fadd (Finite a) (Finite b) = rnd (a + b)"
| "fadd PInf NInf = NaN"
| "fadd NInf PInf = NaN"
| "fadd (Finite a) y = y"
| "fadd x y = x"

fun fneg :: "pyfloat \<Rightarrow> pyfloat" where
  "fneg (Finite a) = Finite (- a)"
| "fneg PInf = NInf"
| "fneg NInf = PInf"
| "fneg NaN = NaN"

definition fsub :: "pyfloat \<Rightarrow> pyfloat \<Rightarrow> pyfloat" where
  "fsub x y = fadd x (fneg y)"

fun fdiv :: "pyfloat \<Rightarrow> pyfloat \<Rightarrow> pyfloat outcome" where
  "fdiv x (Finite b) =
     (if b = 0 then Raises ZeroDivisionError
      else case x of
             Finite a \<Rightarrow> Returns (rnd (a / b))
           | NaN \<Rightarrow> Returns NaN
           | _ \<Rightarrow> Returns (inf_with_sign (sign_of x * b)))"
| "fdiv NaN y = Returns NaN"
| "fdiv x NaN = Returns NaN"
| "fdiv (Finite a) y = Returns (Finite 0)"
| "fdiv x y = Returns NaN"

text \<open>The comparison \<^verbatim>\<open>x > 0\<close>: false on NaN.\<close>

fun gt0 :: "pyfloat \<Rightarrow> bool" where
  "gt0 (Finite a) = (0 < a)"
| "gt0 PInf = True"
| "gt0 x = False"

section \<open>Python numbers\<close>

text \<open>
  The arguments \<^verbatim>\<open>freq\<close>, \<^verbatim>\<open>duration\<close> and \<^verbatim>\<open>volume\<close> of \<^verbatim>\<open>_make_sound\<close> are Python
  numbers: an \<^verbatim>\<open>int\<close>, which is unbounded, or a \<^verbatim>\<open>float\<close>. \<open>obind\<close> sequences two
  computations that may raise.
\<close>

datatype num = PyInt int | PyFloat pyfloat

definition obind :: "'a outcome \<Rightarrow> ('a \<Rightarrow> 'b outcome) \<Rightarrow> 'b outcome" where
  "obind m f = (case m of Returns x \<Rightarrow> f x | Raises e \<Rightarrow> Raises e | Diverges \<Rightarrow> Diverges)"

text \<open>
  The conversion of an \<^verbatim>\<open>int\<close> to \<^verbatim>\<open>float\<close>, explicit in \<^verbatim>\<open>float(i)\<close> and implicit in
  an operator with one \<^verbatim>\<open>int\<close> and one \<^verbatim>\<open>float\<close> operand: the nearest float, and
  \<^verbatim>\<open>OverflowError\<close> when the \<^verbatim>\<open>int\<close> is too large for one. The product of two \<^verbatim>\<open>int\<close>s is
  exact.
\<close>

definition to_float :: "int \<Rightarrow> pyfloat outcome" where
  "to_float k = (case rnd (of_int k) of Finite r \<Rightarrow> Returns (Finite r) | _ \<Rightarrow> Raises OverflowError)"

fun as_float :: "num \<Rightarrow> pyfloat outcome" where
  "as_float (PyInt k) = to_float k"
| "as_float (PyFloat x) = Returns x"

fun py_mul :: "num \<Rightarrow> num \<Rightarrow> num outcome" where
  "py_mul (PyInt a) (PyInt b) = Returns (PyInt (a * b))"
| "py_mul x y = obind (as_float x) (\<lambda>fx. obind (as_float y) (\<lambda>fy. Returns (PyFloat (fmul fx fy))))"

text \<open>
  \<^verbatim>\<open>round(x)\<close> returns an \<^verbatim>\<open>int\<close>: \<open>x\<close> itself for an \<^verbatim>\<open>int\<close>, and the nearest integer,
  ties to even, for a float. \<^verbatim>\<open>int(x)\<close> truncates a float toward zero, and \<^verbatim>\<open>math.floor\<close>
  rounds it down. All three raise \<^verbatim>\<open>ValueError\<close> on NaN and \<^verbatim>\<open>OverflowError\<close> on an
  infinity.
\<close>

fun py_round :: "num \<Rightarrow> int outcome" where
  "py_round (PyInt k) = Returns k"
| "py_round (PyFloat (Finite a)) = Returns (round_half_even a)"
| "py_round (PyFloat NaN) = Raises ValueError"
| "py_round (PyFloat x) = Raises OverflowError"

definition py_trunc :: "real \<Rightarrow> int" where
  "py_trunc a = (if 0 \<le> a then \<lfloor>a\<rfloor> else \<lceil>a\<rceil>)"

fun py_int :: "num \<Rightarrow> int outcome" where
  "py_int (PyInt k) = Returns k"
| "py_int (PyFloat (Finite a)) = Returns (py_trunc a)"
| "py_int (PyFloat NaN) = Raises ValueError"
| "py_int (PyFloat x) = Raises OverflowError"

fun math_floor :: "pyfloat \<Rightarrow> int outcome" where
  "math_floor (Finite a) = Returns \<lfloor>a\<rfloor>"
| "math_floor NaN = Raises ValueError"
| "math_floor x = Raises OverflowError"

text \<open>
  What the code takes from the machine it runs on. \<^verbatim>\<open>math.sin\<close> is the sine of the C
  library: its value at a finite argument other than zero is the parameter \<open>libm_sin\<close>;
  at zero it is zero; at NaN it is NaN; at an infinity \<^verbatim>\<open>math.sin\<close> raises
  \<^verbatim>\<open>ValueError\<close>. \<open>capacity\<close> is the greatest length with which the list
  \<^verbatim>\<open>[0] * n_samples\<close> can be allocated.
\<close>

record platform =
  libm_sin :: "real \<Rightarrow> real"
  capacity :: nat

fun math_sin :: "platform \<Rightarrow> pyfloat \<Rightarrow> pyfloat outcome" where
  "math_sin pf (Finite a) = Returns (Finite (if a = 0 then 0 else libm_sin pf a))"
| "math_sin pf NaN = Returns NaN"
| "math_sin pf x = Raises ValueError"

text \<open>\<^verbatim>\<open>math.pi\<close>, the float nearest to \<open>\<pi>\<close>.\<close>

definition math_pi :: pyfloat where
  "math_pi = Finite (884279719003555 / 2 ^ 48)"

section \<open>SoundManager: the tone synthesizer\<close>

text \<open>
  \<^verbatim>\<open>_make_sound\<close> (lines 24 to 60). The sample rate is what \<^verbatim>\<open>pygame.mixer.get_init()\<close>
  reports (line 35), a natural number; it is an argument here. The result is the buffer
  \<^verbatim>\<open>buf\<close> that line 60 hands to \<^verbatim>\<open>pygame.mixer.Sound\<close>, as the list of its items.

  The body of the loop is split along its lines. Line 44: \<^verbatim>\<open>t = float(i) / sample_rate\<close>.
\<close>

definition sample_time :: "nat \<Rightarrow> nat \<Rightarrow> pyfloat outcome" where
  "sample_time sample_rate i =
     obind (to_float (int i)) (\<lambda>fi.
     obind (to_float (int sample_rate)) (\<lambda>fs.
     fdiv fi fs))"

text \<open>
  Line 47: \<^verbatim>\<open>current_freq = freq * (1 - t / duration) if decay else freq\<close>. The quotient
  is evaluated first, then \<^verbatim>\<open>freq\<close> is converted for the product with a float.
\<close>

definition current_freq :: "num \<Rightarrow> num \<Rightarrow> bool \<Rightarrow> pyfloat \<Rightarrow> num outcome" where
  "current_freq freq duration decay t =
     (if decay
      then obind (as_float duration) (\<lambda>d.
           obind (fdiv t d) (\<lambda>q.
           obind (as_float freq) (\<lambda>f.
           Returns (PyFloat (fmul f (fsub (Finite 1) q))))))
      else Returns freq)"

text \<open>
  Lines 50 to 56. \<open>angle\<close> is the argument \<^verbatim>\<open>2 * math.pi * current_freq * t\<close> of the sine,
  multiplied from the left. The square wave is \<^verbatim>\<open>max_amp\<close> where the sine is \<^verbatim>\<open>> 0\<close> and
  \<^verbatim>\<open>-max_amp\<close> elsewhere; the sawtooth is
  \<^verbatim>\<open>max_amp * (2 * (t * current_freq - math.floor(0.5 + t * current_freq)))\<close>; every other
  shape is the sine wave.
\<close>

definition angle :: "num \<Rightarrow> pyfloat \<Rightarrow> pyfloat outcome" where
  "angle cf t = obind (as_float cf) (\<lambda>c. Returns (fmul (fmul (fmul (Finite 2) math_pi) c) t))"

definition wave :: "platform \<Rightarrow> string \<Rightarrow> int \<Rightarrow> num \<Rightarrow> pyfloat \<Rightarrow> num outcome" where
  "wave pf shape max_amp cf t =
     (if shape = ''square''
      then obind (angle cf t) (\<lambda>x.
           obind (math_sin pf x) (\<lambda>s.
           Returns (PyInt (if gt0 s then max_amp else - max_amp))))
      else if shape = ''sawtooth''
      then obind (as_float cf) (\<lambda>c.
           obind (math_floor (fadd (Finite (1 / 2)) (fmul t c))) (\<lambda>n.
           obind (to_float n) (\<lambda>fn.
           obind (to_float max_amp) (\<lambda>fa.
           Returns (PyFloat (fmul fa (fmul (Finite 2) (fsub (fmul t c) fn))))))))
      else obind (angle cf t) (\<lambda>x.
           obind (math_sin pf x) (\<lambda>s.
           obind (to_float max_amp) (\<lambda>fa.
           Returns (PyFloat (fmul fa s))))))"

text \<open>
  Line 58: \<^verbatim>\<open>buf[i] = int(val)\<close>. The array has the type code \<^verbatim>\<open>'h'\<close>, a signed 16-bit
  integer: storing a value outside \<open>[-32768, 32767]\<close> raises \<^verbatim>\<open>OverflowError\<close>.
\<close>

definition store :: "num \<Rightarrow> int outcome" where
  "store val =
     obind (py_int val) (\<lambda>v.
     if - 32768 \<le> v \<and> v \<le> 32767 then Returns v else Raises OverflowError)"

text \<open>One pass of the loop body, at index \<open>i\<close>: the item stored, or the exception raised.\<close>

definition sample ::
  "platform \<Rightarrow> num \<Rightarrow> num \<Rightarrow> int \<Rightarrow> string \<Rightarrow> bool \<Rightarrow> nat \<Rightarrow> nat \<Rightarrow> int outcome" where
  "sample pf freq duration max_amp shape decay sample_rate i =
     obind (sample_time sample_rate i) (\<lambda>t.
     obind (current_freq freq duration decay t) (\<lambda>cf.
     obind (wave pf shape max_amp cf t) store))"

text \<open>
  The loop \<^verbatim>\<open>for i in range(n_samples)\<close>: the items in the order of the indices, up to
  the first pass that raises.
\<close>

fun fill :: "(nat \<Rightarrow> int outcome) \<Rightarrow> nat list \<Rightarrow> int list outcome" where
  "fill f [] = Returns []"
| "fill f (i # is) = obind (f i) (\<lambda>v. obind (fill f is) (\<lambda>vs. Returns (v # vs)))"

text \<open>
  Line 36: \<^verbatim>\<open>n_samples = int(round(duration * sample_rate))\<close>, and line 40:
  \<^verbatim>\<open>max_amp = int(32767 * volume)\<close>.
\<close>

definition n_samples :: "num \<Rightarrow> nat \<Rightarrow> int outcome" where
  "n_samples duration sample_rate = obind (py_mul duration (PyInt (int sample_rate))) py_round"

definition max_amp :: "num \<Rightarrow> int outcome" where
  "max_amp volume = obind (py_mul (PyInt 32767) volume) py_int"

text \<open>
  The whole call. Line 39 builds \<^verbatim>\<open>[0] * n_samples\<close>, which is empty for a count of zero
  or less, raises \<^verbatim>\<open>OverflowError\<close> for a count that does not fit a signed 64-bit index,
  and \<^verbatim>\<open>MemoryError\<close> for one beyond the capacity of the platform. Line 40 follows, then
  the loop over \<^verbatim>\<open>range(n_samples)\<close>, which is empty for a count of zero or less.
\<close>

definition make_sound ::
  "platform \<Rightarrow> num \<Rightarrow> num \<Rightarrow> num \<Rightarrow> string \<Rightarrow> bool \<Rightarrow> nat \<Rightarrow> int list outcome" where
  "make_sound pf freq duration volume shape decay sample_rate =
     obind (n_samples duration sample_rate) (\<lambda>n.
     if n < - (2 ^ 63) \<or> 2 ^ 63 \<le> n then Raises OverflowError
     else if int (capacity pf) < n then Raises MemoryError
     else obind (max_amp volume) (\<lambda>a.
          fill (sample pf freq duration a shape decay sample_rate) [0 ..< nat n]))"

text \<open>
  The two tones of \<^verbatim>\<open>__init__\<close> (lines 20 and 22), at the rate 44100 that line 16 asks
  the mixer for. The literals \<^verbatim>\<open>0.05\<close>, \<^verbatim>\<open>0.4\<close> and \<^verbatim>\<open>0.5\<close> denote the floats nearest to
  them.
\<close>

definition eat_sound :: "platform \<Rightarrow> int list outcome" where
  "eat_sound pf = make_sound pf (PyInt 1200) (PyFloat (rnd 0.05)) (PyFloat (rnd 0.4)) ''square'' False 44100"

definition death_sound :: "platform \<Rightarrow> int list outcome" where
  "death_sound pf = make_sound pf (PyInt 400) (PyFloat (rnd 0.5)) (PyFloat (rnd 0.5)) ''sawtooth'' True 44100"

section \<open>Notions used in the statements\<close>

text \<open>The cells of the grid, and the opposite of a direction.\<close>

definition in_grid :: "pos \<Rightarrow> bool" where
  "in_grid p = (0 \<le> fst p \<and> fst p < grid_width \<and> 0 \<le> snd p \<and> snd p < grid_height)"

definition opposite :: "pos \<Rightarrow> pos" where
  "opposite d = (- fst d, - snd d)"

definition is_direction :: "pos \<Rightarrow> bool" where
  "is_direction d = (d = (1, 0) \<or> d = (- 1, 0) \<or> d = (0, 1) \<or> d = (0, - 1))"

text \<open>
  The new head that \<open>update\<close> computes in a state: the head moved by the pending
  direction, which \<open>update\<close> adopts before it moves.
\<close>

definition next_head :: "game \<Rightarrow> pos option" where
  "next_head g =
     (case snake g of
        [] \<Rightarrow> None
      | head # _ \<Rightarrow> Some (fst head + fst (next_direction g), snd head + snd (next_direction g)))"

text \<open>
  The \<open>n\<close>-th cell that \<open>spawn_food\<close> draws from a generator: each pass of its loop
  consumes two numbers, the first for the column and the second for the row.
\<close>

definition draw :: "rng \<Rightarrow> nat \<Rightarrow> pos" where
  "draw rs n = (int (rs !! (2 * n) mod nat grid_width), int (rs !! (2 * n + 1) mod nat grid_height))"

text \<open>A well-formed snake: no cell twice, at least one cell.\<close>

definition well_formed :: "game \<Rightarrow> bool" where
  "well_formed g = (distinct (snake g) \<and> 1 \<le> length (snake g))"

text \<open>
  The states the program can be in: the one \<^verbatim>\<open>__init__\<close> builds, and from a reachable
  state the one after a pass of the main loop; also the one after any single call of
  \<open>reset\<close>, \<open>handle_input\<close> or \<open>update\<close>, in any order.
\<close>

inductive reachable :: "game \<Rightarrow> bool" where
  r_init: "init rs = Some (g, rs') \<Longrightarrow> reachable g"
| r_frame: "reachable g \<Longrightarrow> run_frame inp rs g = Returns (g', rs', ts, b) \<Longrightarrow> reachable g'"
| r_reset: "reachable g \<Longrightarrow> reset rs g = Some (g', rs') \<Longrightarrow> reachable g'"
| r_input: "reachable g \<Longrightarrow> handle_input evs m rs g = Returns (g', rs') \<Longrightarrow> reachable g'"
| r_update: "reachable g \<Longrightarrow> update rs g = Returns (g', rs', ts) \<Longrightarrow> reachable g'"

text \<open>
  What the two vote channels maintain: both directions are unit vectors of the grid and
  the pending one is not the opposite of the current one.
\<close>

definition dir_ok :: "game \<Rightarrow> bool" where
  "dir_ok g = (is_direction (direction g) \<and> is_direction (next_direction g)
               \<and> next_direction g \<noteq> opposite (direction g))"

text \<open>
  Two states of a game in progress, used as concrete inputs below: a snake of one cell on
  the top row heading right with an accepted vote for up, and a snake of one cell at the
  centre with the food on the cell in front of it.
\<close>

definition wall_state :: game where
  "wall_state = \<lparr>state = Playing, snake = [(15, 0)], direction = (1, 0), next_direction = (0, - 1),
                  food = (3, 3), score = 0, game_over = False, frame_count = 0\<rparr>"

definition eat_state :: game where
  "eat_state = \<lparr>state = Playing, snake = [(15, 10)], direction = (1, 0), next_direction = (1, 0),
                 food = (16, 10), score = 0, game_over = False, frame_count = 0\<rparr>"

text \<open>The invariant of the game: a well-formed snake and consistent directions.\<close>

definition game_inv :: "game \<Rightarrow> bool" where
  "game_inv g = (well_formed g \<and> dir_ok g)"

text \<open>A sequence of polls with no step between them: \<open>handle_input\<close> called on each in turn.\<close>

fun polls :: "(event list \<times> (int \<times> int)) list \<Rightarrow> rng \<Rightarrow> game \<Rightarrow> (game \<times> rng) outcome" where
  "polls [] rs g = Returns (g, rs)"
| "polls (inp # inps) rs g =
     (case handle_input (fst inp) (snd inp) rs g of
        Returns (g1, rs1) \<Rightarrow> polls inps rs1 g1
      | Raises e \<Rightarrow> Raises e
      | Diverges \<Rightarrow> Diverges)"

text \<open>The state that \<open>init\<close> builds when the generator's first draw is the cell \<open>(0, 0)\<close>.\<close>

definition start_state :: game where
  "start_state = \<lparr>state = Menu, snake = [(15, 10)], direction = (1, 0), next_direction = (1, 0),
                   food = (0, 0), score = 0, game_over = False, frame_count = 0\<rparr>"

text \<open>The state after the start click on \<open>start_state\<close>, with the pointer right of the head.\<close>

definition playing_state :: game where
  "playing_state = \<lparr>state = Playing, snake = [(15, 10)], direction = (1, 0), next_direction = (1, 0),
                     food = (0, 0), score = 0, game_over = False, frame_count = 0\<rparr>"

text \<open>
  The value of a number as a real, where it has one, and the peak amplitude as the
  specification words it: \<^verbatim>\<open>round(32767 * volume)\<close>, where the code truncates.
\<close>

fun num_value :: "num \<Rightarrow> real option" where
  "num_value (PyInt k) = Some (of_int k)"
| "num_value (PyFloat (Finite a)) = Some a"
| "num_value (PyFloat x) = None"

definition peak :: "num \<Rightarrow> int outcome" where
  "peak volume = obind (py_mul (PyInt 32767) volume) py_round"

text \<open>
  A platform for the concrete runs: its sine is the correctly rounded one, and its lists
  hold up to \<open>2 ^ 31\<close> items.
\<close>

definition reference_platform :: platform where
  "reference_platform = \<lparr>libm_sin = (\<lambda>x. rnd_real (sin x)), capacity = 2 ^ 31\<rparr>"

section \<open>Facts about spawn_food\<close>

lemma grid_consts: "grid_width = 30" "grid_height = 20" "cell_size = 20"
  by (simp_all add: grid_width_def grid_height_def cell_size_def)

lemma draw_0: "draw rs 0 = (fst (randrange grid_width rs), fst (randrange grid_height (snd (randrange grid_width rs))))"
  by (simp add: draw_def randrange_def)

lemma draw_Suc: "draw (snd (randrange grid_height (snd (randrange grid_width rs)))) n = draw rs (Suc n)"
  by (simp add: draw_def randrange_def)

lemma spawn_food_unfold:
  "spawn_food rs g =
     (if draw rs 0 \<notin> set (snake g) then Some (g\<lparr>food := draw rs 0\<rparr>, stl (stl rs))
      else spawn_food (stl (stl rs)) g)"
  by (subst spawn_food.simps) (simp add: draw_def randrange_def Let_def)

lemma draw_stl2: "draw (stl (stl rs)) n = draw rs (Suc n)"
  by (simp add: draw_def)

lemma draw_in_grid: "in_grid (draw rs n)"
  by (simp add: draw_def in_grid_def grid_width_def grid_height_def cell_size_def)

lemma spawn_food_returns:
  "draw rs n \<notin> set (snake g) \<Longrightarrow>
   \<exists>k \<le> n. draw rs k \<notin> set (snake g) \<and> spawn_food rs g = Some (g\<lparr>food := draw rs k\<rparr>, sdrop (2 * Suc k) rs)"
proof (induction n arbitrary: rs)
  case 0
  then show ?case by (subst spawn_food_unfold) simp
next
  case (Suc n)
  show ?case
  proof (cases "draw rs 0 \<in> set (snake g)")
    case False
    then show ?thesis by (subst spawn_food_unfold) auto
  next
    case True
    from Suc.prems have "draw (stl (stl rs)) n \<notin> set (snake g)" by (simp add: draw_stl2)
    from Suc.IH[OF this] obtain k where k: "k \<le> n" "draw (stl (stl rs)) k \<notin> set (snake g)"
      "spawn_food (stl (stl rs)) g = Some (g\<lparr>food := draw (stl (stl rs)) k\<rparr>, sdrop (2 * Suc k) (stl (stl rs)))"
      by blast
    have "spawn_food rs g = Some (g\<lparr>food := draw rs (Suc k)\<rparr>, sdrop (2 * Suc (Suc k)) rs)"
      using True k(3) by (subst spawn_food_unfold) (simp add: draw_stl2)
    with k show ?thesis by (intro exI[of _ "Suc k"]) (simp add: draw_stl2)
  qed
qed

lemma spawn_food_Some_aux:
  "spawn_food rs g = Some y \<Longrightarrow>
   \<exists>k. draw rs k \<notin> set (snake g) \<and> y = (g\<lparr>food := draw rs k\<rparr>, sdrop (2 * Suc k) rs)"
proof (induction rs g y rule: spawn_food.raw_induct[rotated 1, consumes 1])
  case (1 sf rs g y)
  show ?case
  proof (cases "draw rs 0 \<in> set (snake g)")
    case False
    with 1(2) show ?thesis
      by (intro exI[of _ 0]) (auto simp: draw_0 Let_def randrange_def numeral_2_eq_2)
  next
    case True
    with 1(2) have "sf (stl (stl rs)) g = Some y"
      by (simp add: draw_0 Let_def randrange_def)
    from 1(1)[OF this] obtain k where
      "draw (stl (stl rs)) k \<notin> set (snake g)"
      "y = (g\<lparr>food := draw (stl (stl rs)) k\<rparr>, sdrop (2 * Suc k) (stl (stl rs)))"
      by blast
    then show ?thesis by (intro exI[of _ "Suc k"]) (simp add: draw_stl2)
  qed
qed

lemma spawn_food_Some:
  "spawn_food rs g = Some (g', rs') \<Longrightarrow>
   \<exists>k. draw rs k \<notin> set (snake g) \<and> g' = g\<lparr>food := draw rs k\<rparr>"
  by (drule spawn_food_Some_aux) auto

lemma spawn_food_None_iff: "spawn_food rs g = None \<longleftrightarrow> (\<forall>n. draw rs n \<in> set (snake g))"
  using spawn_food_returns[of rs _ g] spawn_food_Some[of rs g] by (metis not_None_eq option.distinct(1) surj_pair)

lemma draw_sconst: "draw (sconst k) n = (int (k mod nat grid_width), int (k mod nat grid_height))"
  by (simp add: draw_def)

section \<open>Facts about update\<close>

lemma update_empty: "snake g = [] \<Longrightarrow> update rs g = Raises IndexError"
  by (simp add: update_def)

lemma update_unfold:
  "update rs g =
     (case next_head g of
        None \<Rightarrow> Raises IndexError
      | Some p \<Rightarrow>
          if p \<in> set (snake g) \<or> \<not> in_grid p
          then Returns (g\<lparr>direction := next_direction g, game_over := True, state := GameOver\<rparr>, rs, [Death])
          else if p = food g
          then (case spawn_food rs (g\<lparr>direction := next_direction g, snake := p # snake g,
                                      score := score g + 1\<rparr>) of
                  None \<Rightarrow> Diverges
                | Some (g2, rs2) \<Rightarrow> Returns (g2, rs2, [Eat]))
          else Returns (g\<lparr>direction := next_direction g, snake := butlast (p # snake g)\<rparr>, rs, []))"
proof (cases "snake g")
  case Nil
  then show ?thesis by (simp add: update_def next_head_def)
next
  case (Cons h t)
  then show ?thesis
    by (simp add: update_def next_head_def in_grid_def Let_def del: butlast.simps)
qed

lemma update_collision:
  "next_head g = Some p \<Longrightarrow> p \<in> set (snake g) \<or> \<not> in_grid p \<Longrightarrow>
   update rs g = Returns (g\<lparr>direction := next_direction g, game_over := True, state := GameOver\<rparr>, rs, [Death])"
  by (simp add: update_unfold)

lemma update_move:
  "next_head g = Some p \<Longrightarrow> p \<notin> set (snake g) \<Longrightarrow> in_grid p \<Longrightarrow> p \<noteq> food g \<Longrightarrow>
   update rs g = Returns (g\<lparr>direction := next_direction g, snake := butlast (p # snake g)\<rparr>, rs, [])"
  by (simp add: update_unfold)

lemma update_eat:
  "next_head g = Some p \<Longrightarrow> p \<notin> set (snake g) \<Longrightarrow> in_grid p \<Longrightarrow> p = food g \<Longrightarrow>
   update rs g =
     (case spawn_food rs (g\<lparr>direction := next_direction g, snake := p # snake g, score := score g + 1\<rparr>) of
        None \<Rightarrow> Diverges
      | Some (g2, rs2) \<Rightarrow> Returns (g2, rs2, [Eat]))"
  by (simp add: update_unfold)

lemma next_head_cases:
  obtains "snake g = []" "next_head g = None"
  | h t where "snake g = h # t" "next_head g = Some (fst h + fst (next_direction g), snd h + snd (next_direction g))"
  by (cases "snake g") (auto simp: next_head_def)

lemma update_Returns_cases:
  assumes "update rs g = Returns (g', rs', ts)"
  obtains p where "next_head g = Some p" "p \<in> set (snake g) \<or> \<not> in_grid p"
      "g' = g\<lparr>direction := next_direction g, game_over := True, state := GameOver\<rparr>" "rs' = rs" "ts = [Death]"
  | p where "next_head g = Some p" "p \<notin> set (snake g)" "in_grid p" "p \<noteq> food g"
      "g' = g\<lparr>direction := next_direction g, snake := butlast (p # snake g)\<rparr>" "rs' = rs" "ts = []"
  | p k where "next_head g = Some p" "p \<notin> set (snake g)" "in_grid p" "p = food g"
      "draw rs k \<notin> set (p # snake g)"
      "g' = g\<lparr>direction := next_direction g, snake := p # snake g, score := score g + 1, food := draw rs k\<rparr>"
      "ts = [Eat]"
proof (cases g rule: next_head_cases)
  case 1
  with assms show ?thesis by (simp add: update_empty)
next
  case (2 h t)
  let ?p = "(fst h + fst (next_direction g), snd h + snd (next_direction g))"
  show ?thesis
  proof (cases "?p \<in> set (snake g) \<or> \<not> in_grid ?p")
    case True
    with assms 2 that(1)[of ?p] show ?thesis by (simp add: update_collision[OF 2(2)])
  next
    case False
    show ?thesis
    proof (cases "?p = food g")
      case ne: False
      with assms 2 False that(2)[of ?p] show ?thesis by (simp add: update_move[OF 2(2)])
    next
      case eq: True
      with False have u: "update rs g = (case spawn_food rs (g\<lparr>direction := next_direction g, snake := ?p # snake g, score := score g + 1\<rparr>) of
        None \<Rightarrow> Diverges | Some (g2, rs2) \<Rightarrow> Returns (g2, rs2, [Eat]))"
        by (intro update_eat[OF 2(2)]) auto
      with assms obtain sf: "spawn_food rs (g\<lparr>direction := next_direction g, snake := ?p # snake g, score := score g + 1\<rparr>) = Some (g', rs')" and ts: "ts = [Eat]"
        by (auto split: option.splits)
      from spawn_food_Some[OF sf] obtain k where "draw rs k \<notin> set (?p # snake g)"
        "g' = g\<lparr>direction := next_direction g, snake := ?p # snake g, score := score g + 1, food := draw rs k\<rparr>"
        by auto
      with that(3)[of ?p k] 2 False eq ts show ?thesis by auto
    qed
  qed
qed

section \<open>Facts about reset and the polls, and the invariant\<close>

lemma reset_Some:
  assumes "reset rs g = Some (g', rs')"
  obtains k where "draw rs k \<noteq> (grid_width div 2, grid_height div 2)"
    "g' = g\<lparr>snake := [(grid_width div 2, grid_height div 2)], direction := (1, 0),
            next_direction := (1, 0), food := draw rs k, score := 0, game_over := False,
            frame_count := 0\<rparr>"
proof -
  let ?g = "g\<lparr>snake := [(grid_width div 2, grid_height div 2)], direction := (1, 0),
               next_direction := (1, 0)\<rparr>"
  from assms obtain g1 where sf: "spawn_food rs ?g = Some (g1, rs')"
    and g': "g' = g1\<lparr>score := 0, game_over := False, frame_count := 0\<rparr>"
    by (auto simp: reset_def split: option.splits)
  from spawn_food_Some[OF sf] obtain k where "draw rs k \<notin> set (snake ?g)" "g1 = ?g\<lparr>food := draw rs k\<rparr>"
    by blast
  with g' that[of k] show ?thesis by simp
qed

lemma reset_returns:
  assumes "draw rs n \<noteq> (grid_width div 2, grid_height div 2)"
  shows "\<exists>g' rs'. reset rs g = Some (g', rs')"
proof -
  let ?g = "g\<lparr>snake := [(grid_width div 2, grid_height div 2)], direction := (1, 0),
               next_direction := (1, 0)\<rparr>"
  from assms have "draw rs n \<notin> set (snake ?g)" by simp
  from spawn_food_returns[OF this] show ?thesis by (auto simp: reset_def)
qed

lemma reset_None_iff:
  "reset rs g = None \<longleftrightarrow> (\<forall>n. draw rs n = (grid_width div 2, grid_height div 2))"
proof -
  have "reset rs g = None \<longleftrightarrow>
        spawn_food rs (g\<lparr>snake := [(grid_width div 2, grid_height div 2)], direction := (1, 0),
                         next_direction := (1, 0)\<rparr>) = None"
    by (auto simp: reset_def split: option.splits)
  then show ?thesis by (simp add: spawn_food_None_iff)
qed

lemma is_direction_not_opposite: "is_direction d \<Longrightarrow> d \<noteq> opposite d"
  by (auto simp: is_direction_def opposite_def)

lemma reset_inv:
  "reset rs g = Some (g', rs') \<Longrightarrow> well_formed g' \<and> dir_ok g'"
  by (erule reset_Some) (simp add: well_formed_def dir_ok_def is_direction_def opposite_def)

lemma key_input_eq: "key_input ev g = g\<lparr>next_direction := next_direction (key_input ev g)\<rparr>"
  by (cases ev) (simp_all add: key_input_def)

lemma key_input_dir_ok: "dir_ok g \<Longrightarrow> dir_ok (key_input ev g)"
  by (cases ev) (auto simp: key_input_def dir_ok_def is_direction_def opposite_def)

lemma mouse_dir_is_direction: "is_direction (mouse_dir m h)"
  by (simp add: mouse_dir_def is_direction_def Let_def)

lemma mouse_input_Returns:
  assumes "mouse_input m g = Returns g'"
  shows "g' = g\<lparr>next_direction := next_direction g'\<rparr>" and "dir_ok g \<Longrightarrow> dir_ok g'"
  using assms
  by (auto simp: mouse_input_def dir_ok_def opposite_def Let_def mouse_dir_is_direction
           split: if_splits list.splits)

lemma menu_input_Returns:
  assumes "menu_input ev (g, rs) = Returns (g', rs')"
  shows "(g' = g \<and> rs' = rs) \<or> (state g \<noteq> Playing \<and> reset rs (g\<lparr>state := Playing\<rparr>) = Some (g', rs'))"
  using assms by (auto simp: menu_input_def Let_def split: if_splits option.splits)

lemma inv_next_direction:
  "game_inv g \<Longrightarrow> dir_ok (g\<lparr>next_direction := d\<rparr>) \<Longrightarrow> game_inv (g\<lparr>next_direction := d\<rparr>)"
  by (simp add: game_inv_def well_formed_def)

lemma handle_event_inv:
  assumes "handle_event ev (g, rs) = Returns (g', rs')" and "game_inv g"
  shows "game_inv g'"
proof -
  from assms(1) obtain g1 where m: "menu_input ev (g, rs) = Returns (g1, rs')" and g': "g' = key_input ev g1"
    by (auto simp: handle_event_def split: if_splits outcome.splits)
  from menu_input_Returns[OF m] assms(2) have "game_inv g1"
    by (auto simp: game_inv_def dest: reset_inv)
  then show ?thesis
    unfolding g' using key_input_eq[of ev g1] key_input_dir_ok[of g1 ev]
    by (metis game_inv_def inv_next_direction)
qed

lemma event_loop_inv:
  "event_loop evs (g, rs) = Returns (g', rs') \<Longrightarrow> game_inv g \<Longrightarrow> game_inv g'"
proof (induction evs arbitrary: g rs)
  case Nil
  then show ?case by simp
next
  case (Cons ev evs)
  from Cons.prems(1) obtain g1 rs1 where h: "handle_event ev (g, rs) = Returns (g1, rs1)"
    and l: "event_loop evs (g1, rs1) = Returns (g', rs')"
    by (auto split: outcome.splits)
  from handle_event_inv[OF h Cons.prems(2)] Cons.IH[OF l] show ?case by blast
qed

lemma handle_input_inv:
  assumes "handle_input evs m rs g = Returns (g', rs')" and "game_inv g"
  shows "game_inv g'"
proof -
  from assms(1) obtain g1 where l: "event_loop evs (g, rs) = Returns (g1, rs')"
    and mi: "mouse_input m g1 = Returns g'"
    by (auto simp: handle_input_def split: outcome.splits)
  from event_loop_inv[OF l assms(2)] have "game_inv g1" .
  with mouse_input_Returns[OF mi] show ?thesis
    by (metis game_inv_def inv_next_direction)
qed

lemma update_well_formed:
  assumes "update rs g = Returns (g', rs', ts)" and "well_formed g"
  shows "well_formed g'"
  using assms(1)
proof (cases rule: update_Returns_cases)
  case (1 p)
  with assms(2) show ?thesis by (simp add: well_formed_def)
next
  case (2 p)
  from assms(2) have ne: "snake g \<noteq> []" and "distinct (snake g)" by (auto simp: well_formed_def)
  with 2(2) have "distinct (p # snake g)" by simp
  then have "distinct (butlast (p # snake g))" by (rule distinct_butlast)
  moreover from ne have "1 \<le> length (butlast (p # snake g))" by (cases "snake g") simp_all
  ultimately show ?thesis unfolding 2(5) well_formed_def by simp
next
  case (3 p k)
  with assms(2) show ?thesis by (simp add: well_formed_def)
qed

lemma update_dir_ok:
  assumes "update rs g = Returns (g', rs', ts)" and "dir_ok g"
  shows "dir_ok g'"
  using assms(1)
  by (cases rule: update_Returns_cases)
     (use assms(2) is_direction_not_opposite[of "next_direction g"] in \<open>simp_all add: dir_ok_def\<close>)

lemma update_inv: "update rs g = Returns (g', rs', ts) \<Longrightarrow> game_inv g \<Longrightarrow> game_inv g'"
  by (simp add: game_inv_def update_well_formed update_dir_ok)

lemma inv_frame_count: "game_inv (g\<lparr>frame_count := c\<rparr>) = game_inv g"
  by (simp add: game_inv_def well_formed_def dir_ok_def)

lemma run_frame_inv:
  assumes "run_frame inp rs g = Returns (g', rs', ts, b)" and "game_inv g"
  shows "game_inv g'"
proof -
  from assms(1) obtain g1 rs1 where h: "handle_input (fst inp) (snd inp) rs g = Returns (g1, rs1)"
    by (auto simp: run_frame_def split: outcome.splits)
  from handle_input_inv[OF h assms(2)] have i1: "game_inv g1" .
  from assms(1) h consider "g' = g1" | "g' = g1\<lparr>frame_count := frame_count g1 + 1\<rparr>"
    | rs3 where "update rs1 (g1\<lparr>frame_count := frame_count g1 + 1, frame_count := 0\<rparr>) = Returns (g', rs3, ts)"
    by (auto simp: run_frame_def Let_def split: if_splits outcome.splits)
  then show ?thesis
  proof cases
    case 3
    from update_inv[OF 3] i1 show ?thesis by (simp add: inv_frame_count)
  qed (use i1 in \<open>simp_all add: inv_frame_count\<close>)
qed

lemma reachable_inv: "reachable g \<Longrightarrow> game_inv g"
proof (induction rule: reachable.induct)
  case (r_init rs g rs')
  then show ?case by (auto simp: init_def game_inv_def dest: reset_inv)
next
  case (r_frame g inp rs g' rs' ts b)
  then show ?case by (auto intro: run_frame_inv)
next
  case (r_reset g rs g' rs')
  then show ?case by (auto simp: game_inv_def dest: reset_inv)
next
  case (r_input g evs m rs g' rs')
  then show ?case by (auto intro: handle_input_inv)
next
  case (r_update g rs g' rs' ts)
  then show ?case by (auto intro: update_inv)
qed

section \<open>Polls while playing\<close>

lemma key_input_state: "state (key_input ev g) = state g"
  by (subst key_input_eq) simp

lemma handle_event_playing:
  "state g = Playing \<Longrightarrow>
   handle_event ev (g, rs) = (if ev = QUIT then Raises SystemExit else Returns (key_input ev g, rs))"
  by (simp add: handle_event_def menu_input_def)

lemma event_loop_playing:
  assumes "state g = Playing" and "event_loop evs (g, rs) = Returns (g', rs')"
  shows "rs' = rs \<and> g' = g\<lparr>next_direction := next_direction g'\<rparr>"
  using assms
proof (induction evs arbitrary: g)
  case Nil
  then show ?case by simp
next
  case (Cons ev evs)
  from Cons.prems have l: "event_loop evs (key_input ev g, rs) = Returns (g', rs')"
    by (simp add: handle_event_playing split: if_splits)
  from Cons.IH[OF _ l] Cons.prems(1)
  have "rs' = rs" and "g' = (key_input ev g)\<lparr>next_direction := next_direction g'\<rparr>"
    by (simp_all add: key_input_state)
  then show ?case by (subst (asm) key_input_eq) simp
qed

lemma event_loop_playing_returns:
  "state g = Playing \<Longrightarrow> QUIT \<notin> set evs \<Longrightarrow> \<exists>g'. event_loop evs (g, rs) = Returns (g', rs)"
  by (induction evs arbitrary: g) (auto simp: handle_event_playing key_input_state)

lemma handle_input_playing:
  assumes "state g = Playing" and "handle_input evs m rs g = Returns (g', rs')"
  shows "rs' = rs \<and> g' = g\<lparr>next_direction := next_direction g'\<rparr>"
proof -
  from assms(2) obtain g1 where l: "event_loop evs (g, rs) = Returns (g1, rs')"
    and mi: "mouse_input m g1 = Returns g'"
    by (auto simp: handle_input_def split: outcome.splits)
  from event_loop_playing[OF assms(1) l] have "rs' = rs" "g1 = g\<lparr>next_direction := next_direction g1\<rparr>"
    by simp_all
  moreover from mouse_input_Returns(1)[OF mi] have "g' = g1\<lparr>next_direction := next_direction g'\<rparr>" .
  ultimately show ?thesis by (metis game.surjective game.update_convs(4))
qed

lemma handle_input_playing_returns:
  assumes "state g = Playing" and "QUIT \<notin> set evs" and "snake g \<noteq> []"
  shows "\<exists>g'. handle_input evs m rs g = Returns (g', rs)"
proof -
  from event_loop_playing_returns[OF assms(1,2)] obtain g1 where
    l: "event_loop evs (g, rs) = Returns (g1, rs)" by blast
  from event_loop_playing[OF assms(1) l] have "g1 = g\<lparr>next_direction := next_direction g1\<rparr>" by simp
  then have "snake g1 = snake g" by (metis game.select_convs(2) game.surjective game.update_convs(4))
  with assms(3) obtain h t where "snake g1 = h # t" by (cases "snake g") auto
  then have "\<exists>g'. mouse_input m g1 = Returns g'" by (simp add: mouse_input_def Let_def)
  with l show ?thesis by (auto simp: handle_input_def)
qed

lemma polls_playing:
  assumes "state g = Playing" and "polls ps rs g = Returns (g', rs')"
  shows "rs' = rs \<and> g' = g\<lparr>next_direction := next_direction g'\<rparr>"
  using assms
proof (induction ps arbitrary: g)
  case Nil
  then show ?case by simp
next
  case (Cons inp ps)
  from Cons.prems(2) obtain g1 rs1 where h: "handle_input (fst inp) (snd inp) rs g = Returns (g1, rs1)"
    and p: "polls ps rs1 g1 = Returns (g', rs')"
    by (auto split: outcome.splits)
  from handle_input_playing[OF Cons.prems(1) h] have 1: "rs1 = rs" "g1 = g\<lparr>next_direction := next_direction g1\<rparr>"
    by simp_all
  then have "state g1 = Playing" using Cons.prems(1)
    by (metis game.select_convs(1) game.surjective game.update_convs(4))
  from Cons.IH[OF this] p 1(1) have "rs' = rs" "g' = g1\<lparr>next_direction := next_direction g'\<rparr>" by simp_all
  with 1(2) show ?case by (metis game.surjective game.update_convs(4))
qed

lemma polls_reachable:
  "reachable g \<Longrightarrow> polls ps rs g = Returns (g', rs') \<Longrightarrow> reachable g'"
proof (induction ps arbitrary: g rs)
  case Nil
  then show ?case by simp
next
  case (Cons inp ps)
  from Cons.prems(2) obtain g1 rs1 where h: "handle_input (fst inp) (snd inp) rs g = Returns (g1, rs1)"
    and p: "polls ps rs1 g1 = Returns (g', rs')"
    by (auto split: outcome.splits)
  from r_input[OF Cons.prems(1) h] Cons.IH[OF _ p] show ?case by blast
qed

section \<open>Termination of the food placement\<close>

lemma draw_hits:
  assumes "in_grid c"
  shows "draw (nat (fst c) ## sconst (nat (snd c))) 0 = c"
proof -
  from assms have "nat (fst c) < 30" and "nat (snd c) < 20" and "0 \<le> fst c" and "0 \<le> snd c"
    by (auto simp: in_grid_def grid_consts)
  then show ?thesis by (cases c) (simp add: draw_def grid_consts)
qed

lemma free_cell_iff: "(\<exists>c. in_grid c \<and> c \<notin> set (snake g)) \<longleftrightarrow> (\<exists>rs. spawn_food rs g \<noteq> None)"
proof
  assume "\<exists>c. in_grid c \<and> c \<notin> set (snake g)"
  then obtain c where c: "in_grid c" "c \<notin> set (snake g)" by blast
  then have "draw (nat (fst c) ## sconst (nat (snd c))) 0 \<notin> set (snake g)"
    by (simp add: draw_hits)
  then have "spawn_food (nat (fst c) ## sconst (nat (snd c))) g \<noteq> None"
    by (auto simp: spawn_food_None_iff)
  then show "\<exists>rs. spawn_food rs g \<noteq> None" ..
next
  assume "\<exists>rs. spawn_food rs g \<noteq> None"
  then obtain rs n where "draw rs n \<notin> set (snake g)" by (auto simp: spawn_food_None_iff)
  with draw_in_grid[of rs n] show "\<exists>c. in_grid c \<and> c \<notin> set (snake g)" by blast
qed

lemma update_Diverges_iff:
  "update rs g = Diverges \<longleftrightarrow>
     (\<exists>p. next_head g = Some p \<and> p \<notin> set (snake g) \<and> in_grid p \<and> p = food g
          \<and> (\<forall>n. draw rs n \<in> set (p # snake g)))"
proof (cases "next_head g")
  case None
  then show ?thesis by (simp add: update_unfold)
next
  case (Some p)
  let ?g1 = "g\<lparr>direction := next_direction g, snake := p # snake g, score := score g + 1\<rparr>"
  have "spawn_food rs ?g1 = None \<longleftrightarrow> (\<forall>n. draw rs n \<in> set (p # snake g))"
    by (simp add: spawn_food_None_iff)
  with Some show ?thesis
    by (auto simp: update_unfold split: option.splits)
qed

lemma mouse_input_playing:
  "state g = Playing \<Longrightarrow> snake g = h # t \<Longrightarrow>
   mouse_input m g =
     Returns (if mouse_dir m h \<noteq> opposite (direction g) then g\<lparr>next_direction := mouse_dir m h\<rparr> else g)"
  by (simp add: mouse_input_def opposite_def Let_def)

section \<open>The frame counter\<close>

lemma key_input_not_playing: "state g \<noteq> Playing \<Longrightarrow> key_input ev g = g"
  by (cases ev) (simp_all add: key_input_def)

lemma reset_state: "reset rs g = Some (g', rs') \<Longrightarrow> state g' = state g \<and> frame_count g' = 0"
  by (erule reset_Some) simp

lemma handle_event_Returns:
  assumes "handle_event ev (g, rs) = Returns (g', rs')"
  shows "(state g' \<noteq> Playing \<and> g' = g \<and> rs' = rs)
         \<or> (state g' = Playing \<and> state g = Playing \<and> frame_count g' = frame_count g)
         \<or> (state g' = Playing \<and> state g \<noteq> Playing \<and> frame_count g' = 0)"
proof (cases "state g = Playing")
  case True
  with assms have "g' = key_input ev g" by (simp add: handle_event_playing split: if_splits)
  with True show ?thesis using key_input_eq[of ev g] key_input_state[of ev g]
    by (metis game.select_convs(8) game.surjective game.update_convs(4))
next
  case False
  from assms obtain g1 where m: "menu_input ev (g, rs) = Returns (g1, rs')" and g': "g' = key_input ev g1"
    by (auto simp: handle_event_def split: if_splits outcome.splits)
  from menu_input_Returns[OF m] show ?thesis
  proof
    assume "g1 = g \<and> rs' = rs"
    with False g' show ?thesis by (simp add: key_input_not_playing)
  next
    assume r: "state g \<noteq> Playing \<and> reset rs (g\<lparr>state := Playing\<rparr>) = Some (g1, rs')"
    then have "state g1 = Playing" "frame_count g1 = 0" by (auto dest: reset_state)
    with g' False show ?thesis using key_input_eq[of ev g1] key_input_state[of ev g1]
      by (metis game.select_convs(8) game.surjective game.update_convs(4))
  qed
qed

lemma event_loop_Returns:
  "event_loop evs (g, rs) = Returns (g', rs') \<Longrightarrow>
     (state g' \<noteq> Playing \<and> g' = g \<and> rs' = rs)
     \<or> (state g' = Playing \<and> state g = Playing \<and> frame_count g' = frame_count g)
     \<or> (state g' = Playing \<and> state g \<noteq> Playing \<and> frame_count g' = 0)"
proof (induction evs arbitrary: g rs)
  case Nil
  then show ?case by auto
next
  case (Cons ev evs)
  from Cons.prems obtain g1 rs1 where h: "handle_event ev (g, rs) = Returns (g1, rs1)"
    and l: "event_loop evs (g1, rs1) = Returns (g', rs')"
    by (auto split: outcome.splits)
  from handle_event_Returns[OF h] Cons.IH[OF l] show ?case by auto
qed

lemma mouse_input_frame: 
  assumes "mouse_input m g = Returns g'"
  shows "state g' = state g \<and> frame_count g' = frame_count g \<and> (state g \<noteq> Playing \<longrightarrow> g' = g)"
  using assms by (auto simp: mouse_input_def Let_def split: if_splits list.splits)

lemma handle_input_Returns:
  assumes "handle_input evs m rs g = Returns (g', rs')"
  shows "(state g' \<noteq> Playing \<and> g' = g \<and> rs' = rs)
         \<or> (state g' = Playing \<and> state g = Playing \<and> frame_count g' = frame_count g)
         \<or> (state g' = Playing \<and> state g \<noteq> Playing \<and> frame_count g' = 0)"
proof -
  from assms obtain g1 where l: "event_loop evs (g, rs) = Returns (g1, rs')"
    and mi: "mouse_input m g1 = Returns g'"
    by (auto simp: handle_input_def split: outcome.splits)
  from event_loop_Returns[OF l] mouse_input_frame[OF mi] show ?thesis by auto
qed

lemma run_frame_unfold:
  assumes "handle_input (fst inp) (snd inp) rs g = Returns (g1, rs1)"
  shows "run_frame inp rs g =
           (if state g1 = Playing then
              (if frame_count g1 + 1 \<ge> frames_per_move
               then (case update rs1 (g1\<lparr>frame_count := 0\<rparr>) of
                       Returns (g3, rs3, ts) \<Rightarrow> Returns (g3, rs3, ts, True)
                     | Raises e \<Rightarrow> Raises e
                     | Diverges \<Rightarrow> Diverges)
               else Returns (g1\<lparr>frame_count := frame_count g1 + 1\<rparr>, rs1, [], False))
            else Returns (g1, rs1, [], False))"
  using assms by (simp add: run_frame_def Let_def)

lemma update_frame_count:
  "update rs g = Returns (g', rs', ts) \<Longrightarrow> frame_count g' = frame_count g"
  by (erule update_Returns_cases) simp_all

lemma frames_per_move_6: "frames_per_move = 6"
  by (simp add: frames_per_move_def fps_def move_rate_def)

lemma run_frame_waiting:
  assumes "state g = Playing" and "frame_count g + 1 < frames_per_move"
    and "run_frame inp rs g = Returns (g', rs', ts, b)"
  shows "\<not> b \<and> ts = [] \<and> rs' = rs \<and> state g' = Playing \<and> snake g' = snake g
         \<and> frame_count g' = frame_count g + 1"
proof -
  from assms(3) obtain g1 rs1 where h: "handle_input (fst inp) (snd inp) rs g = Returns (g1, rs1)"
    by (auto simp: run_frame_def split: outcome.splits)
  from handle_input_playing[OF assms(1) h] have rs1: "rs1 = rs"
    and g1: "g1 = g\<lparr>next_direction := next_direction g1\<rparr>" by simp_all
  from g1 assms(1) have s: "state g1 = Playing" "frame_count g1 = frame_count g" "snake g1 = snake g"
    by (metis game.select_convs(1) game.surjective game.update_convs(4),
        metis game.select_convs(8) game.surjective game.update_convs(4),
        metis game.select_convs(2) game.surjective game.update_convs(4))
  with assms(2,3) rs1 show ?thesis by (auto simp: run_frame_unfold[OF h])
qed

lemma run_frame_waiting_returns:
  assumes "state g = Playing" and "frame_count g + 1 < frames_per_move"
    and "snake g \<noteq> []" and "QUIT \<notin> set (fst inp)"
  shows "\<exists>g'. run_frame inp rs g = Returns (g', rs, [], False)"
proof -
  from handle_input_playing_returns[OF assms(1,4,3)] obtain g1 where
    h: "handle_input (fst inp) (snd inp) rs g = Returns (g1, rs)" by blast
  from handle_input_playing[OF assms(1) h] have g1: "g1 = g\<lparr>next_direction := next_direction g1\<rparr>" by simp
  from g1 assms(1) have s: "state g1 = Playing" "frame_count g1 = frame_count g"
    by (metis game.select_convs(1) game.surjective game.update_convs(4),
        metis game.select_convs(8) game.surjective game.update_convs(4))
  with assms(2) show ?thesis by (simp add: run_frame_unfold[OF h])
qed

lemma run_waiting:
  assumes "state g = Playing" and "frame_count g + int (length inps) < frames_per_move"
    and "run inps rs g = Returns (g', rs', ts, n)"
  shows "n = 0 \<and> ts = [] \<and> rs' = rs \<and> state g' = Playing \<and> snake g' = snake g
         \<and> frame_count g' = frame_count g + int (length inps)"
  using assms
proof (induction inps arbitrary: g ts n)
  case Nil
  then show ?case by simp
next
  case (Cons inp inps)
  from Cons.prems(3) obtain g1 rs1 ts1 b ts2 n2 where
    f: "run_frame inp rs g = Returns (g1, rs1, ts1, b)"
    and r: "run inps rs1 g1 = Returns (g', rs', ts2, n2)"
    and ts: "ts = ts1 @ ts2" and n: "n = (if b then 1 else 0) + n2"
    by (auto split: outcome.splits)
  from Cons.prems(2) have c: "frame_count g + 1 < frames_per_move" by simp
  from run_frame_waiting[OF Cons.prems(1) c f]
  have 1: "\<not> b" "ts1 = []" "rs1 = rs" "state g1 = Playing" "snake g1 = snake g"
    "frame_count g1 = frame_count g + 1" by simp_all
  from Cons.prems(2) 1 have "frame_count g1 + int (length inps) < frames_per_move" by simp
  from Cons.IH[OF 1(4) this] r 1(3)
  have "n2 = 0 \<and> ts2 = [] \<and> rs' = rs \<and> state g' = Playing \<and> snake g' = snake g1
         \<and> frame_count g' = frame_count g1 + int (length inps)" by simp
  with 1 ts n show ?case by simp
qed

lemma run_waiting_returns:
  assumes "state g = Playing" and "frame_count g + int (length inps) < frames_per_move"
    and "snake g \<noteq> []" and "\<forall>inp \<in> set inps. QUIT \<notin> set (fst inp)"
  shows "\<exists>g'. run inps rs g = Returns (g', rs, [], 0)"
  using assms
proof (induction inps arbitrary: g)
  case Nil
  then show ?case by simp
next
  case (Cons inp inps)
  from Cons.prems(2) have c: "frame_count g + 1 < frames_per_move" by simp
  from Cons.prems(4) have q: "QUIT \<notin> set (fst inp)" by simp
  from run_frame_waiting_returns[OF Cons.prems(1) c Cons.prems(3) q] obtain g1 where
    f: "run_frame inp rs g = Returns (g1, rs, [], False)" by blast
  from run_frame_waiting[OF Cons.prems(1) c f]
  have 1: "state g1 = Playing" "snake g1 = snake g" "frame_count g1 = frame_count g + 1" by simp_all
  from Cons.prems(2) 1 have 2: "frame_count g1 + int (length inps) < frames_per_move" by simp
  from Cons.prems(3) 1 have 3: "snake g1 \<noteq> []" by simp
  from Cons.prems(4) have 4: "\<forall>inp \<in> set inps. QUIT \<notin> set (fst inp)" by simp
  from Cons.IH[OF 1(1) 2 3 4] obtain g' where "run inps rs g1 = Returns (g', rs, [], 0)" by blast
  with f show ?case by simp
qed

lemma run_append:
  "run (as @ bs) rs g =
     (case run as rs g of
        Returns (g1, rs1, ts1, n1) \<Rightarrow>
          (case run bs rs1 g1 of
             Returns (g2, rs2, ts2, n2) \<Rightarrow> Returns (g2, rs2, ts1 @ ts2, n1 + n2)
           | Raises e \<Rightarrow> Raises e
           | Diverges \<Rightarrow> Diverges)
      | Raises e \<Rightarrow> Raises e
      | Diverges \<Rightarrow> Diverges)"
  by (induction as arbitrary: rs g) (auto split: outcome.splits)

lemma run_frame_due:
  assumes "state g = Playing" and "frame_count g + 1 \<ge> frames_per_move"
    and "run_frame inp rs g = Returns (g', rs', ts, b)"
  shows "b \<and> frame_count g' = 0"
proof -
  from assms(3) obtain g1 rs1 where h: "handle_input (fst inp) (snd inp) rs g = Returns (g1, rs1)"
    by (auto simp: run_frame_def split: outcome.splits)
  from handle_input_playing[OF assms(1) h] have g1: "g1 = g\<lparr>next_direction := next_direction g1\<rparr>" by simp
  from g1 assms(1) have s: "state g1 = Playing" "frame_count g1 = frame_count g"
    by (metis game.select_convs(1) game.surjective game.update_convs(4),
        metis game.select_convs(8) game.surjective game.update_convs(4))
  with assms(2,3) obtain rs3 where "update rs1 (g1\<lparr>frame_count := 0\<rparr>) = Returns (g', rs3, ts)" and "b"
    by (auto simp: run_frame_unfold[OF h] split: outcome.splits)
  then show ?thesis by (auto dest: update_frame_count)
qed

lemma run_one_interval:
  assumes "state g = Playing" and "frame_count g = 0" and "int (length inps) = frames_per_move"
    and "run inps rs g = Returns (g', rs', ts, n)"
  shows "n = 1 \<and> frame_count g' = 0"
proof -
  from assms(3) have "inps \<noteq> []" by (auto simp: frames_per_move_6)
  then obtain as b where inps: "inps = as @ [b]" by (metis rev_exhaust)
  with assms(3) have len: "frame_count g + int (length as) < frames_per_move"
    and len': "int (length as) + 1 = frames_per_move"
    using assms(2) by simp_all
  from assms(4) obtain g1 rs1 ts1 n1 g2 rs2 ts2 n2 where
    a: "run as rs g = Returns (g1, rs1, ts1, n1)"
    and b: "run [b] rs1 g1 = Returns (g2, rs2, ts2, n2)" and n: "n = n1 + n2" and g2: "g' = g2"
    unfolding inps run_append by (auto split: outcome.splits)
  from run_waiting[OF assms(1) len a] have 1: "n1 = 0" "state g1 = Playing"
    "frame_count g1 = frame_count g + int (length as)" by simp_all
  from b obtain bb where f: "run_frame b rs1 g1 = Returns (g2, rs2, ts2, bb)"
    and n2: "n2 = (if bb then 1 else 0)"
    by (auto split: outcome.splits)
  from 1(3) len' assms(2) have "frame_count g1 + 1 \<ge> frames_per_move" by simp
  from run_frame_due[OF 1(2) this f] n2 1(1) n g2 show ?thesis by simp
qed

section \<open>Concrete runs\<close>

lemma reset_sconst_0:
  "reset (sconst 0) g =
     Some (g\<lparr>snake := [(15, 10)], direction := (1, 0), next_direction := (1, 0), food := (0, 0),
             score := 0, game_over := False, frame_count := 0\<rparr>, sconst 0)"
  by (simp add: reset_def spawn_food_unfold draw_sconst grid_consts)

lemma init_sconst_0: "init (sconst 0) = Some (start_state, sconst 0)"
  by (simp add: init_def reset_sconst_0 start_state_def)

lemma reachable_start_state: "reachable start_state"
  using init_sconst_0 by (rule r_init)

lemma start_poll:
  "handle_input [MOUSEBUTTONDOWN] (400, 210) (sconst 0) start_state = Returns (playing_state, sconst 0)"
  by (simp add: handle_input_def handle_event_def menu_input_def reset_sconst_0 key_input_def
        mouse_input_def mouse_dir_def start_state_def playing_state_def grid_consts Let_def)

lemma reachable_playing_state: "reachable playing_state"
  using reachable_start_state start_poll by (rule r_input)

lemma idle_frame:
  "c + 1 < 6 \<Longrightarrow> run_frame ([], (400, 210)) (sconst 0) (playing_state\<lparr>frame_count := c\<rparr>)
     = Returns (playing_state\<lparr>frame_count := c + 1\<rparr>, sconst 0, [], False)"
  by (simp add: run_frame_def handle_input_def mouse_input_def mouse_dir_def playing_state_def
        grid_consts Let_def frames_per_move_6)

lemma due_frame:
  "run_frame ([], (400, 210)) (sconst 0) (playing_state\<lparr>frame_count := 5\<rparr>)
     = Returns (playing_state\<lparr>snake := [(16, 10)]\<rparr>, sconst 0, [], True)"
  by (simp add: run_frame_def handle_input_def mouse_input_def mouse_dir_def playing_state_def
        grid_consts Let_def frames_per_move_6 update_def)

lemma six_frames:
  "run (replicate 6 ([], (400, 210))) (sconst 0) playing_state
     = Returns (playing_state\<lparr>snake := [(16, 10)]\<rparr>, sconst 0, [], 1)"
proof -
  have p0: "playing_state = playing_state\<lparr>frame_count := 0\<rparr>" by (simp add: playing_state_def)
  have r: "replicate 6 ([]::event list, (400::int, 210::int)) = [([], (400, 210)), ([], (400, 210)),
      ([], (400, 210)), ([], (400, 210)), ([], (400, 210)), ([], (400, 210))]"
    by (simp add: numeral_eq_Suc)
  show ?thesis
    unfolding r by (subst p0) (simp add: idle_frame due_frame)
qed

section \<open>Facts about powers of two and binades\<close>

lemma pow2_powr: "pow2 k = 2 powr (real_of_int k)"
  by (simp add: pow2_def powr_int)

lemma pow2_pos [simp]: "0 < pow2 k"
  by (simp add: pow2_powr)

lemma pow2_nonneg [simp]: "0 \<le> pow2 k"
  using pow2_pos[of k] by (simp only: less_imp_le)

lemma pow2_neq_0 [simp]: "pow2 k \<noteq> 0"
  by (simp add: pow2_powr)

lemma abs_pow2 [simp]: "\<bar>pow2 k\<bar> = pow2 k"
  by simp

lemma pow2_not_le_0 [simp]: "\<not> pow2 k \<le> 0"
  using pow2_pos[of k] by (simp only: not_le)

lemma neg_pow2_not_ge_0 [simp]: "\<not> 0 \<le> - pow2 k"
  by simp

lemma pow2_add: "pow2 (a + b) = pow2 a * pow2 b"
  by (simp add: pow2_powr powr_add)

lemma pow2_mono: "a \<le> b \<Longrightarrow> pow2 a \<le> pow2 b"
  by (simp add: pow2_powr)

lemma pow2_less_iff: "pow2 a < pow2 b \<longleftrightarrow> a < b"
  by (simp add: pow2_powr)

lemma pow2_nat: "0 \<le> k \<Longrightarrow> pow2 k = of_int (2 ^ nat k)"
  by (simp add: pow2_def)

lemma pow2_numeral: "pow2 (numeral n) = 2 ^ numeral n"
  by (simp add: pow2_def)

lemma pow2_0 [simp]: "pow2 0 = 1"
  by (simp add: pow2_def)

lemma pow2_diff: "pow2 (a - b) = pow2 a / pow2 b"
  by (simp add: pow2_powr powr_diff)

lemma binade_bounds:
  assumes "x \<noteq> 0"
  shows "pow2 (binade x) \<le> \<bar>x\<bar>" and "\<bar>x\<bar> < pow2 (binade x + 1)"
proof -
  let ?a = "\<bar>x\<bar>"
  from assms have a: "0 < ?a" by simp
  have "pow2 (binade x) \<le> ?a \<and> ?a < pow2 (binade x + 1)"
  proof (cases "1 \<le> ?a")
    case True
    let ?m = "\<lfloor>?a\<rfloor>"
    from True have m: "0 < ?m" by simp
    from bitlen_bounds[OF m] have lo: "2 ^ nat (bitlen ?m - 1) \<le> ?m" and hi: "?m < 2 ^ nat (bitlen ?m)"
      by simp_all
    from m have bl: "1 \<le> bitlen ?m" by (simp add: bitlen_alt_def)
    from True have b: "binade x = bitlen ?m - 1" by (simp add: binade_def)
    have "pow2 (binade x) = of_int (2 ^ nat (bitlen ?m - 1))" using bl b by (simp add: pow2_nat)
    also have "\<dots> \<le> of_int ?m" using lo by (simp only: of_int_le_iff)
    also have "\<dots> \<le> ?a" by simp
    finally have 1: "pow2 (binade x) \<le> ?a" .
    from hi have "?m + 1 \<le> 2 ^ nat (bitlen ?m)" by simp
    then have "of_int (?m + 1) \<le> (of_int (2 ^ nat (bitlen ?m)) :: real)" by (simp only: of_int_le_iff)
    moreover have "?a < of_int (?m + 1)" by linarith
    ultimately have "?a < of_int (2 ^ nat (bitlen ?m))" by linarith
    also have "\<dots> = pow2 (binade x + 1)" using bl b by (simp add: pow2_nat)
    finally show ?thesis using 1 by simp
  next
    case False
    let ?c = "\<lceil>1 / ?a\<rceil>"
    let ?m = "?c - 1"
    let ?k = "bitlen ?m"
    from False a have inv: "1 < 1 / ?a" by simp
    then have "1 < ?c" by linarith
    then have m: "0 < ?m" by simp
    from bitlen_bounds[OF m] have lo: "2 ^ nat (?k - 1) \<le> ?m" and hi: "?m < 2 ^ nat ?k"
      by simp_all
    from m have bl: "1 \<le> ?k" by (simp add: bitlen_alt_def)
    from False have b: "binade x = - ?k" by (simp add: binade_def)
    have "1 / ?a \<le> of_int ?c" by linarith
    also have "of_int ?c \<le> (of_int (2 ^ nat ?k) :: real)" using hi by (simp only: of_int_le_iff)
    finally have "1 / ?a \<le> 2 ^ nat ?k" by simp
    then have "1 \<le> 2 ^ nat ?k * ?a" using a by (simp add: field_simps)
    then have 1: "pow2 (- ?k) \<le> ?a" using bl by (simp add: pow2_def field_simps)
    have "of_int ?m < 1 / ?a" by linarith
    moreover have "(of_int (2 ^ nat (?k - 1)) :: real) \<le> of_int ?m" using lo by (simp only: of_int_le_iff)
    ultimately have "2 ^ nat (?k - 1) < 1 / ?a" by simp
    then have "2 ^ nat (?k - 1) * ?a < 1" using a by (simp add: field_simps)
    then have 2: "?a < pow2 (- ?k + 1)" using bl
      by (cases "?k = 1") (simp_all add: pow2_def field_simps nat_diff_distrib)
    from 1 2 b show ?thesis by simp
  qed
  then show "pow2 (binade x) \<le> \<bar>x\<bar>" and "\<bar>x\<bar> < pow2 (binade x + 1)" by simp_all
qed

lemma binade_eqI:
  assumes "pow2 e \<le> \<bar>x\<bar>" and "\<bar>x\<bar> < pow2 (e + 1)"
  shows "binade x = e"
proof -
  from assms(1) have nz: "x \<noteq> 0" using pow2_pos[of e] by (auto simp: not_le[symmetric])
  from binade_bounds[OF nz] assms have "pow2 e < pow2 (binade x + 1)" "pow2 (binade x) < pow2 (e + 1)"
    by linarith+
  then have "e < binade x + 1" "binade x < e + 1" by (simp_all add: pow2_less_iff)
  then show ?thesis by simp
qed

lemma binade_minus [simp]: "binade (- x) = binade x"
  by (simp add: binade_def)

section \<open>Facts about rounding half to even\<close>

lemma rhe_cases:
  "round_half_even x = \<lfloor>x\<rfloor> \<or> round_half_even x = \<lfloor>x\<rfloor> + 1"
  by (simp add: round_half_even_def Let_def)

lemma rhe_of_int [simp]: "round_half_even (of_int n) = n"
  by (simp add: round_half_even_def)

lemma rhe_0 [simp]: "round_half_even 0 = 0"
  using rhe_of_int[of 0] by simp

lemma rhe_lower: "\<lfloor>x\<rfloor> \<le> round_half_even x"
  using rhe_cases[of x] by auto

lemma rhe_upper: "round_half_even x \<le> \<lceil>x\<rceil>"
proof (cases "x = of_int \<lfloor>x\<rfloor>")
  case True
  then have "round_half_even x = \<lfloor>x\<rfloor>" by (metis rhe_of_int)
  then show ?thesis by (simp add: floor_le_ceiling)
next
  case False
  then have "\<lceil>x\<rceil> = \<lfloor>x\<rfloor> + 1" by (simp add: ceiling_altdef)
  with rhe_cases[of x] show ?thesis by auto
qed

lemma rhe_le: "x \<le> of_int n \<Longrightarrow> round_half_even x \<le> n"
  using rhe_upper[of x] by (meson ceiling_le order_trans)

lemma rhe_ge: "of_int n \<le> x \<Longrightarrow> n \<le> round_half_even x"
  using rhe_lower[of x] by (meson le_floor_iff order_trans)

lemma rhe_error: "\<bar>of_int (round_half_even x) - x\<bar> \<le> 1 / 2"
proof -
  define r where "r = x - of_int \<lfloor>x\<rfloor>"
  have r: "0 \<le> r" "r < 1" unfolding r_def by linarith+
  have x: "x = of_int \<lfloor>x\<rfloor> + r" by (simp add: r_def)
  have d: "round_half_even x =
        (if r < 1 / 2 then \<lfloor>x\<rfloor> else if r > 1 / 2 then \<lfloor>x\<rfloor> + 1
         else if even \<lfloor>x\<rfloor> then \<lfloor>x\<rfloor> else \<lfloor>x\<rfloor> + 1)"
    by (simp add: round_half_even_def Let_def r_def)
  show ?thesis
  proof (cases "r < 1 / 2")
    case True
    with d have "round_half_even x = \<lfloor>x\<rfloor>" by simp
    with True r show ?thesis by (subst (2) x) simp
  next
    case False
    show ?thesis
    proof (cases "r > 1 / 2")
      case True
      with d have "round_half_even x = \<lfloor>x\<rfloor> + 1" by simp
      with True r show ?thesis by (subst (2) x) simp
    next
      case False
      with \<open>\<not> r < 1 / 2\<close> have h: "r = 1 / 2" by simp
      from rhe_cases[of x] show ?thesis
      proof
        assume "round_half_even x = \<lfloor>x\<rfloor>"
        with h show ?thesis by (subst (2) x) simp
      next
        assume "round_half_even x = \<lfloor>x\<rfloor> + 1"
        with h show ?thesis by (subst (2) x) simp
      qed
    qed
  qed
qed

lemma rhe_mono:
  assumes "x \<le> y"
  shows "round_half_even x \<le> round_half_even y"
proof (cases "\<lfloor>x\<rfloor> < \<lfloor>y\<rfloor>")
  case True
  with rhe_cases[of x] rhe_lower[of y] show ?thesis by auto
next
  case False
  with assms have f: "\<lfloor>x\<rfloor> = \<lfloor>y\<rfloor>" by (simp add: floor_mono order_antisym)
  with assms have "x - of_int \<lfloor>x\<rfloor> \<le> y - of_int \<lfloor>y\<rfloor>" by simp
  with f show ?thesis by (auto simp: round_half_even_def Let_def)
qed

lemma rhe_minus: "round_half_even (- x) = - round_half_even x"
proof (cases "x = of_int \<lfloor>x\<rfloor>")
  case True
  then obtain n where "x = of_int n" ..
  then show ?thesis using rhe_of_int[of "- n"] by simp
next
  case False
  then have fl: "\<lfloor>- x\<rfloor> = - \<lfloor>x\<rfloor> - 1"
    by (metis ceiling_altdef ceiling_def add_diff_cancel minus_add_cancel minus_diff_eq uminus_add_conv_diff)
  have r: "0 < x - of_int \<lfloor>x\<rfloor>" "x - of_int \<lfloor>x\<rfloor> < 1" using False by linarith+
  show ?thesis
    unfolding round_half_even_def Let_def fl using r
    by (auto simp: field_simps)
qed

section \<open>Facts about rounding to a float\<close>

text \<open>
  The rounding is monotone, exact on every \<open>m * 2 ^ e\<close> with \<open>\<bar>m\<bar> < 2 ^ 53\<close> and
  \<open>- 1074 \<le> e\<close>, and off by at most half a unit in the last place.
\<close>

lemma ulp_exp_minus [simp]: "ulp_exp (- x) = ulp_exp x"
  by (simp add: ulp_exp_def)

lemma rnd_real_0 [simp]: "rnd_real 0 = 0"
  by (simp add: rnd_real_def)

lemma rnd_real_minus: "rnd_real (- x) = - rnd_real x"
  by (simp add: rnd_real_def rhe_minus)

lemma rnd_real_eval:
  assumes "pow2 e \<le> \<bar>x\<bar>" and "\<bar>x\<bar> < pow2 (e + 1)"
  shows "rnd_real x = of_int (round_half_even (x / pow2 (max (e - 52) (- 1074)))) * pow2 (max (e - 52) (- 1074))"
proof -
  from assms(1) have "x \<noteq> 0" using pow2_pos[of e] by (auto simp: not_le[symmetric])
  moreover from assms have "binade x = e" by (rule binade_eqI)
  ultimately show ?thesis by (simp add: rnd_real_def ulp_exp_def)
qed

lemma rnd_real_exact:
  assumes x: "x = of_int m * pow2 e" and m: "\<bar>m\<bar> < 2 ^ 53" and e: "- 1074 \<le> e"
  shows "rnd_real x = x"
proof (cases "x = 0")
  case True
  then show ?thesis by simp
next
  case False
  from binade_bounds(1)[OF False] have "pow2 (binade x) \<le> \<bar>of_int m\<bar> * pow2 e"
    by (simp add: x abs_mult)
  also have "\<bar>of_int m :: real\<bar> < 2 ^ 53"
    using m by (metis of_int_abs of_int_less_iff of_int_numeral of_int_power)
  then have "\<bar>of_int m\<bar> * pow2 e < 2 ^ 53 * pow2 e" by simp
  also have "(2::real) ^ 53 * pow2 e = pow2 (53 + e)" by (simp add: pow2_add pow2_numeral)
  finally have "binade x < 53 + e" by (simp add: pow2_less_iff)
  with e have "ulp_exp x \<le> e" by (simp add: ulp_exp_def)
  define u where "u = ulp_exp x"
  with \<open>ulp_exp x \<le> e\<close> have u: "u \<le> e" by simp
  have "pow2 e = pow2 (e - u) * pow2 u" by (simp add: pow2_add[symmetric])
  also from u have "pow2 (e - u) = of_int (2 ^ nat (e - u))" by (simp add: pow2_nat)
  finally have pe: "pow2 e = of_int (2 ^ nat (e - u)) * pow2 u" .
  have q: "x / pow2 u = of_int (m * 2 ^ nat (e - u))"
    unfolding x pe by simp
  then have "round_half_even (x / pow2 u) = m * 2 ^ nat (e - u)"
    by (simp only: rhe_of_int)
  with False have "rnd_real x = of_int (m * 2 ^ nat (e - u)) * pow2 u"
    by (simp add: rnd_real_def u_def)
  also have "\<dots> = x / pow2 u * pow2 u" by (simp only: q)
  also have "\<dots> = x" by simp
  finally show ?thesis .
qed

lemma rnd_real_of_int:
  assumes "\<bar>n\<bar> < 2 ^ 53"
  shows "rnd_real (of_int n) = of_int n"
  using rnd_real_exact[of "of_int n" n 0] assms by simp

lemma rnd_real_error:
  assumes "x \<noteq> 0"
  shows "\<bar>rnd_real x - x\<bar> \<le> pow2 (ulp_exp x) / 2"
proof -
  let ?u = "pow2 (ulp_exp x)"
  have "rnd_real x - x = (of_int (round_half_even (x / ?u)) - x / ?u) * ?u"
    using assms by (simp add: rnd_real_def field_simps)
  then have "\<bar>rnd_real x - x\<bar> = \<bar>of_int (round_half_even (x / ?u)) - x / ?u\<bar> * ?u"
    by (simp add: abs_mult)
  also have "\<dots> \<le> 1 / 2 * ?u"
    by (intro mult_right_mono rhe_error) simp
  finally show ?thesis by simp
qed

lemma rnd_real_mono_pos:
  assumes "0 < x" and "x \<le> y"
  shows "rnd_real x \<le> rnd_real y"
proof -
  from assms have x0: "x \<noteq> 0" and y0: "y \<noteq> 0" by simp_all
  let ?ux = "pow2 (ulp_exp x)" and ?uy = "pow2 (ulp_exp y)"
  have rx: "rnd_real x = of_int (round_half_even (x / ?ux)) * ?ux" using x0 by (simp add: rnd_real_def)
  have ry: "rnd_real y = of_int (round_half_even (y / ?uy)) * ?uy" using y0 by (simp add: rnd_real_def)
  from binade_bounds[OF x0] binade_bounds[OF y0] assms
  have "pow2 (binade x) < pow2 (binade y + 1)" by simp
  then have bxy: "binade x \<le> binade y" by (simp add: pow2_less_iff)
  then have uxy: "ulp_exp x \<le> ulp_exp y" by (simp add: ulp_exp_def)
  show ?thesis
  proof (cases "ulp_exp x = ulp_exp y")
    case True
    from assms have "x / ?ux \<le> y / ?ux" by (simp add: divide_right_mono)
    then have "round_half_even (x / ?ux) \<le> round_half_even (y / ?ux)" by (rule rhe_mono)
    then have "(of_int (round_half_even (x / ?ux)) :: real) \<le> of_int (round_half_even (y / ?ux))"
      by (simp only: of_int_le_iff)
    then show ?thesis unfolding rx ry True[symmetric] by (simp add: mult_right_mono)
  next
    case False
    with uxy have lt: "ulp_exp x < ulp_exp y" by simp
    define e where "e = binade y"
    from lt have ey: "ulp_exp y = e - 52" and ex: "binade x < e" and exu: "ulp_exp x < e - 52"
      by (auto simp: ulp_exp_def e_def max_def split: if_splits)
    \<comment> \<open>the boundary \<open>pow2 e\<close> lies between the two rounded values\<close>
    have "x < pow2 (binade x + 1)" using binade_bounds(2)[OF x0] assms(1) by simp
    also have "\<dots> \<le> pow2 e" using ex by (intro pow2_mono) simp
    finally have xe: "x < pow2 e" .
    have pe: "pow2 e = pow2 (e - ulp_exp x) * ?ux" by (simp add: pow2_add[symmetric])
    have pi: "pow2 (e - ulp_exp x) = of_int (2 ^ nat (e - ulp_exp x))"
      using exu by (simp add: pow2_nat)
    from xe have "x / ?ux \<le> pow2 e / ?ux" by (simp add: divide_right_mono)
    also have "pow2 e / ?ux = of_int (2 ^ nat (e - ulp_exp x))" using pe pi by simp
    finally have "round_half_even (x / ?ux) \<le> 2 ^ nat (e - ulp_exp x)" by (rule rhe_le)
    then have "(of_int (round_half_even (x / ?ux)) :: real) \<le> of_int (2 ^ nat (e - ulp_exp x))"
      by (simp only: of_int_le_iff)
    then have "rnd_real x \<le> of_int (2 ^ nat (e - ulp_exp x)) * ?ux"
      unfolding rx by (simp add: mult_right_mono)
    also have "\<dots> = pow2 e" using pe pi by simp
    finally have 1: "rnd_real x \<le> pow2 e" .
    have "pow2 e \<le> y" using binade_bounds(1)[OF y0] assms by (simp add: e_def)
    then have "pow2 e / ?uy \<le> y / ?uy" by (simp add: divide_right_mono)
    moreover have "pow2 e / ?uy = of_int (2 ^ 52)"
      unfolding ey using pow2_diff[of e "e - 52"] by (simp add: pow2_numeral)
    ultimately have "of_int (2 ^ 52) \<le> y / ?uy" by simp
    then have "2 ^ 52 \<le> round_half_even (y / ?uy)" by (rule rhe_ge)
    then have "(of_int (2 ^ 52) :: real) \<le> of_int (round_half_even (y / ?uy))"
      by (simp only: of_int_le_iff)
    then have "of_int (2 ^ 52) * ?uy \<le> rnd_real y"
      unfolding ry by (simp add: mult_right_mono)
    moreover have "of_int (2 ^ 52) * ?uy = pow2 e"
      unfolding ey using pow2_add[of 52 "e - 52"] by (simp add: pow2_numeral)
    ultimately have 2: "pow2 e \<le> rnd_real y" by simp
    from 1 2 show ?thesis by simp
  qed
qed

lemma rnd_real_nonneg: "0 \<le> x \<Longrightarrow> 0 \<le> rnd_real x"
proof (cases "x = 0")
  case False
  assume "0 \<le> x"
  then have "of_int 0 \<le> x / pow2 (ulp_exp x)" by simp
  then have "0 \<le> round_half_even (x / pow2 (ulp_exp x))" by (rule rhe_ge)
  with False show ?thesis by (simp add: rnd_real_def)
qed simp

lemma rnd_real_mono:
  assumes "x \<le> y"
  shows "rnd_real x \<le> rnd_real y"
proof -
  consider "0 < x" | "x \<le> 0" "0 \<le> y" | "y < 0" by linarith
  then show ?thesis
  proof cases
    case 1
    from 1 assms show ?thesis by (rule rnd_real_mono_pos)
  next
    case 2
    from 2(1) have "0 \<le> rnd_real (- x)" by (intro rnd_real_nonneg) simp
    then have "rnd_real x \<le> 0" by (simp add: rnd_real_minus)
    also from 2(2) have "0 \<le> rnd_real y" by (rule rnd_real_nonneg)
    finally show ?thesis .
  next
    case 3
    with assms have "0 < - y" "- y \<le> - x" by simp_all
    then have "rnd_real (- y) \<le> rnd_real (- x)" by (rule rnd_real_mono_pos)
    then show ?thesis by (simp add: rnd_real_minus)
  qed
qed

section \<open>Facts about Python numbers\<close>

lemma obind_Returns [simp]: "obind (Returns x) f = f x"
  by (simp add: obind_def)

lemma obind_Raises [simp]: "obind (Raises e) f = Raises e"
  by (simp add: obind_def)

lemma obind_eq_Returns:
  "obind m f = Returns y \<longleftrightarrow> (\<exists>x. m = Returns x \<and> f x = Returns y)"
  by (cases m) (simp_all add: obind_def)

lemma rnd_real_abs_le:
  assumes "\<bar>x\<bar> \<le> B" and "rnd_real B = B"
  shows "\<bar>rnd_real x\<bar> \<le> B"
proof -
  from assms(1) have "x \<le> B" "- B \<le> x" by simp_all
  then have "rnd_real x \<le> rnd_real B" "rnd_real (- B) \<le> rnd_real x" by (simp_all add: rnd_real_mono)
  with assms(2) show ?thesis by (simp add: rnd_real_minus)
qed

lemma rnd_Finite:
  assumes "\<bar>rnd_real x\<bar> < pow2 1024"
  shows "rnd x = Finite (rnd_real x)"
  using assms by (auto simp: rnd_def Let_def)

lemma rnd_real_pow2: "- 1074 \<le> k \<Longrightarrow> rnd_real (pow2 k) = pow2 k"
  using rnd_real_exact[of "pow2 k" 1 k] by simp

lemma rnd_real_power: "rnd_real (2 ^ k) = 2 ^ k"
  using rnd_real_pow2[of "int k"] by (simp add: pow2_def)

lemma rnd_bounded:
  assumes "\<bar>x\<bar> \<le> B" and "rnd_real B = B" and "B < pow2 1024"
  shows "rnd x = Finite (rnd_real x)" and "\<bar>rnd_real x\<bar> \<le> B"
proof -
  from assms(1,2) show b: "\<bar>rnd_real x\<bar> \<le> B" by (rule rnd_real_abs_le)
  with assms(3) show "rnd x = Finite (rnd_real x)" by (intro rnd_Finite) simp
qed

lemma below_overflow: "x \<le> 2 ^ k \<Longrightarrow> k \<le> 1023 \<Longrightarrow> x < pow2 1024"
proof -
  assume "x \<le> 2 ^ k" and "k \<le> 1023"
  then have "x \<le> pow2 (int k)" by (simp add: pow2_def)
  also from \<open>k \<le> 1023\<close> have "pow2 (int k) < pow2 1024" by (simp add: pow2_less_iff)
  finally show ?thesis .
qed

lemma rnd_real_rel_error:
  assumes "pow2 (- 1022) \<le> \<bar>x\<bar>"
  shows "\<bar>rnd_real x - x\<bar> \<le> \<bar>x\<bar> / 2 ^ 53"
proof -
  from assms have nz: "x \<noteq> 0" using pow2_pos[of "- 1022"] by (auto simp: not_le[symmetric])
  from binade_bounds(2)[OF nz] assms have "pow2 (- 1022) < pow2 (binade x + 1)" by simp
  then have "- 1022 \<le> binade x" by (simp add: pow2_less_iff)
  then have u: "ulp_exp x = binade x - 52" by (simp add: ulp_exp_def)
  have "pow2 (binade x - 52) / 2 = pow2 (binade x) / 2 ^ 53"
    using pow2_diff[of "binade x" 52] by (simp add: pow2_numeral)
  also have "\<dots> \<le> \<bar>x\<bar> / 2 ^ 53" using binade_bounds(1)[OF nz] by (simp add: divide_right_mono)
  finally show ?thesis using rnd_real_error[OF nz] u by simp
qed

lemma to_float_exact: "\<bar>k\<bar> < 2 ^ 53 \<Longrightarrow> to_float k = Returns (Finite (of_int k))"
proof -
  assume k: "\<bar>k\<bar> < 2 ^ 53"
  then have r: "rnd_real (of_int k) = of_int k" by (rule rnd_real_of_int)
  from k have "\<bar>of_int k :: real\<bar> < 2 ^ 53"
    by (metis of_int_abs of_int_less_iff of_int_numeral of_int_power)
  then have "\<bar>of_int k :: real\<bar> < pow2 1024"
    using below_overflow[of "\<bar>of_int k :: real\<bar>" 53] by simp
  then have "rnd (of_int k) = Finite (rnd_real (of_int k))" by (intro rnd_Finite) (simp add: r)
  with r show ?thesis by (simp add: to_float_def)
qed

lemma to_float_nat: "n < 2 ^ 53 \<Longrightarrow> to_float (int n) = Returns (Finite (real n))"
  using to_float_exact[of "int n"] by (simp add: nat_less_numeral_power_cancel_iff)

lemma py_trunc_bound:
  assumes "\<bar>x\<bar> < of_int a + 1"
  shows "- a \<le> py_trunc x" and "py_trunc x \<le> a"
proof -
  show "py_trunc x \<le> a"
  proof (cases "0 \<le> x")
    case True
    with assms have "x < of_int (a + 1)" by simp
    then have "\<lfloor>x\<rfloor> < a + 1" by (simp only: floor_less_iff)
    with True show ?thesis by (simp add: py_trunc_def)
  next
    case False
    then have c: "\<lceil>x\<rceil> \<le> 0" by (simp add: ceiling_le_iff)
    from False assms have "0 < of_int a + (1::real)" by linarith
    then have a: "0 \<le> a" by linarith
    from False have "py_trunc x = \<lceil>x\<rceil>" by (simp add: py_trunc_def)
    with c a show ?thesis by linarith
  qed
  show "- a \<le> py_trunc x"
  proof (cases "0 \<le> x")
    case True
    then have c: "0 \<le> \<lfloor>x\<rfloor>" by simp
    from True assms have "0 < of_int a + (1::real)" by linarith
    then have a: "0 \<le> a" by linarith
    from True have "py_trunc x = \<lfloor>x\<rfloor>" by (simp add: py_trunc_def)
    with c a show ?thesis by linarith
  next
    case False
    with assms have "of_int (- a - 1) < x" by simp
    then have "- a - 1 < \<lceil>x\<rceil>" by (simp only: less_ceiling_iff)
    with False show ?thesis by (simp add: py_trunc_def)
  qed
qed

lemma fill_Returns_nth:
  "fill f is = Returns xs \<Longrightarrow> length xs = length is \<and> (\<forall>j < length is. f (is ! j) = Returns (xs ! j))"
proof (induction "is" arbitrary: xs)
  case Nil
  then show ?case by simp
next
  case (Cons i "is")
  from Cons.prems obtain v vs where v: "f i = Returns v" and vs: "fill f is = Returns vs" and xs: "xs = v # vs"
    by (auto simp: obind_eq_Returns)
  from Cons.IH[OF vs] v xs show ?case by (auto simp: nth_Cons split: nat.splits)
qed

lemma fill_all:
  assumes "\<forall>i \<in> set is. \<exists>v. f i = Returns v \<and> P v"
  shows "\<exists>xs. fill f is = Returns xs \<and> length xs = length is \<and> (\<forall>x \<in> set xs. P x)"
  using assms
proof (induction "is")
  case Nil
  then show ?case by simp
next
  case (Cons i "is")
  then obtain v where v: "f i = Returns v" "P v" by auto
  from Cons obtain xs where "fill f is = Returns xs" "length xs = length is" "\<forall>x \<in> set xs. P x" by auto
  with v show ?case by (intro exI[of _ "v # xs"]) simp
qed

lemma rnd_0 [simp]: "rnd 0 = Finite 0"
  by (simp add: rnd_def)

lemma rnd_real_1 [simp]: "rnd_real 1 = 1"
  using rnd_real_of_int[of 1] by simp

lemma rnd_1 [simp]: "rnd 1 = Finite 1"
  using rnd_Finite[of 1] below_overflow[of 1 0] by simp

lemma to_float_0 [simp]: "to_float 0 = Returns (Finite 0)"
  by (simp add: to_float_def)

lemma to_float_sample_rate:
  "sample_rate < 2 ^ 31 \<Longrightarrow> to_float (int sample_rate) = Returns (Finite (real sample_rate))"
  by (rule to_float_nat) (simp add: less_trans[where y = "2 ^ 31"])

lemma to_float_returns:
  assumes "\<bar>k\<bar> < 2 ^ 63"
  shows "to_float k = Returns (Finite (rnd_real (of_int k)))"
proof -
  from assms have "\<bar>of_int k :: real\<bar> \<le> 2 ^ 63"
    by (metis less_imp_le of_int_abs of_int_le_iff of_int_numeral of_int_power)
  then have "rnd (of_int k) = Finite (rnd_real (of_int k))"
    using rnd_real_power[of 63] below_overflow[of "2 ^ 63" 63] by (intro rnd_bounded(1)) simp_all
  then show ?thesis by (simp add: to_float_def)
qed

lemma max_amp_range:
  assumes "num_value volume = Some v" and "0 \<le> v" and "v \<le> 1"
  shows "\<exists>a p. max_amp volume = Returns a \<and> peak volume = Returns p \<and> 0 \<le> a \<and> a \<le> p \<and> p \<le> 32767"
proof (cases volume)
  case (PyInt k)
  with assms have "0 \<le> k" "k \<le> 1" by simp_all
  with PyInt show ?thesis by (simp add: max_amp_def peak_def)
next
  case (PyFloat x)
  with assms(1) have x: "x = Finite v" by (cases x) simp_all
  let ?P = "rnd_real (32767 * v)"
  have r: "rnd_real 32767 = 32767" using rnd_real_of_int[of 32767] by simp
  from assms have b: "\<bar>32767 * v\<bar> \<le> 32767" by simp
  have o: "(32767::real) < pow2 1024" using below_overflow[of 32767 15] by simp
  have f: "rnd (32767 * v) = Finite ?P" using b r o by (rule rnd_bounded(1))
  have u: "\<bar>?P\<bar> \<le> 32767" using b r o by (rule rnd_bounded(2))
  from assms have l: "0 \<le> ?P" by (intro rnd_real_nonneg) simp
  have m: "py_mul (PyInt 32767) volume = Returns (PyFloat (Finite ?P))"
    using to_float_exact[of 32767] by (simp add: PyFloat x f)
  from l have t: "py_trunc ?P = \<lfloor>?P\<rfloor>" by (simp add: py_trunc_def)
  from u have "?P \<le> of_int 32767" by simp
  then have "round_half_even ?P \<le> 32767" by (rule rhe_le)
  with m t l rhe_lower[of ?P] show ?thesis by (simp add: max_amp_def peak_def)
qed

lemma n_samples_float:
  assumes "sample_rate < 2 ^ 31"
  shows "n_samples (PyFloat x) sample_rate = py_round (PyFloat (fmul x (Finite (real sample_rate))))"
  using to_float_sample_rate[OF assms] by (simp add: n_samples_def)

lemma n_samples_int: "n_samples (PyInt d) sample_rate = Returns (d * int sample_rate)"
  by (simp add: n_samples_def)

lemma duration_positive:
  assumes "n_samples duration sample_rate = Returns n" and "0 < n" and "n < 2 ^ 63"
    and "sample_rate < 2 ^ 31"
  shows "\<exists>d. as_float duration = Returns (Finite d) \<and> d \<noteq> 0 \<and> 0 < sample_rate"
proof (cases duration)
  case (PyInt d)
  with assms(1) have n: "n = d * int sample_rate" by (simp add: n_samples_int)
  with assms(2) have sr: "0 < sample_rate" by (cases "sample_rate = 0") simp_all
  with n assms(2) have d: "0 < d" by (simp add: zero_less_mult_iff)
  from sr have "1 \<le> int sample_rate" by simp
  with d have "d * 1 \<le> d * int sample_rate" by (intro mult_left_mono) simp_all
  then have "d \<le> n" by (simp add: n)
  with assms(3) d have "\<bar>d\<bar> < 2 ^ 63" by linarith
  from to_float_returns[OF this] have r: "to_float d = Returns (Finite (rnd_real (of_int d)))" .
  from d have "rnd_real 1 \<le> rnd_real (of_int d)" by (intro rnd_real_mono) simp
  then have "rnd_real (of_int d) \<noteq> 0" by simp
  with r sr PyInt show ?thesis by simp
next
  case (PyFloat x)
  from assms(1) have p: "py_round (PyFloat (fmul x (Finite (real sample_rate)))) = Returns n"
    by (simp add: PyFloat n_samples_float[OF assms(4)])
  show ?thesis
  proof (cases x)
    case (Finite r)
    have "r \<noteq> 0 \<and> sample_rate \<noteq> 0"
    proof (rule ccontr)
      assume "\<not> (r \<noteq> 0 \<and> sample_rate \<noteq> 0)"
      then have "r * real sample_rate = 0" by auto
      with p Finite assms(2) show False by simp
    qed
    with Finite PyFloat show ?thesis by simp
  next
    case PInf
    with p show ?thesis by (simp add: inf_with_sign_def split: if_splits)
  next
    case NInf
    with p show ?thesis by (simp add: inf_with_sign_def split: if_splits)
  next
    case NaN
    with p show ?thesis by simp
  qed
qed

lemma sin_at_zero:
  "\<exists>s. math_sin pf (fmul x (Finite 0)) = Returns s \<and> \<not> gt0 s"
  by (cases x) (simp_all add: inf_with_sign_def)

lemma first_square_sample:
  assumes n: "n_samples duration sample_rate = Returns n" "0 < n" "n < 2 ^ 63"
    and sr: "sample_rate < 2 ^ 31"
    and a: "0 \<le> a" "a \<le> 32767"
    and f: "as_float freq = Returns f"
  shows "sample pf freq duration a ''square'' decay sample_rate 0 = Returns (- a)"
proof -
  from duration_positive[OF n sr] obtain d where d: "as_float duration = Returns (Finite d)" "d \<noteq> 0"
    and sr0: "0 < sample_rate" by blast
  have t: "fdiv (Finite 0) (Finite (real sample_rate)) = Returns (Finite 0)" using sr0 by simp
  have q: "fdiv (Finite 0) (Finite d) = Returns (Finite 0)" using d by simp
  show ?thesis
  proof (cases decay)
    case True
    from sin_at_zero[of pf "fmul (fmul (Finite 2) math_pi) (fmul f (fsub (Finite 1) (Finite 0)))"]
    obtain s where "math_sin pf (fmul (fmul (fmul (Finite 2) math_pi) (fmul f (fsub (Finite 1) (Finite 0)))) (Finite 0)) = Returns s"
      "\<not> gt0 s" by blast
    with True a sr0 show ?thesis
      by (simp add: sample_def sample_time_def current_freq_def angle_def wave_def store_def to_float_sample_rate[OF sr] d f)
  next
    case False
    from sin_at_zero[of pf "fmul (fmul (Finite 2) math_pi) f"]
    obtain s where "math_sin pf (fmul (fmul (fmul (Finite 2) math_pi) f) (Finite 0)) = Returns s"
      "\<not> gt0 s" by blast
    with False a sr0 show ?thesis
      by (simp add: sample_def sample_time_def current_freq_def angle_def wave_def store_def to_float_sample_rate[OF sr] f)
  qed
qed

section \<open>The tones of the game\<close>

text \<open>
  The literals of the two tones as floats, and the count and the amplitude of the tone
  for eating.
\<close>

lemmas float_eval = rnd_def rnd_real_def ulp_exp_def binade_def compute_bitlen pow2_def
  round_half_even_def py_trunc_def to_float_def n_samples_def max_amp_def peak_def math_pi_def
  fsub_def inf_with_sign_def

lemma rnd_04: "rnd 0.4 = Finite (3602879701896397 / 2 ^ 53)"
  by (simp add: float_eval)

lemma rnd_005: "rnd 0.05 = Finite (3602879701896397 / 2 ^ 56)"
  by (simp add: float_eval)

lemma rnd_05: "rnd 0.5 = Finite (1 / 2)"
  by (simp add: float_eval)

lemma eat_n_samples: "n_samples (PyFloat (rnd 0.05)) 44100 = Returns 2205"
  by (simp add: float_eval)

lemma eat_max_amp: "max_amp (PyFloat (rnd 0.4)) = Returns 13106"
  by (simp add: float_eval)

lemma eat_peak: "peak (PyFloat (rnd 0.4)) = Returns 13107"
  by (simp add: float_eval)

lemma n_samples_nonpos:
  assumes "num_value duration = Some r" and "r \<le> 0" and "- (2 ^ 63) \<le> r * real sample_rate"
    and "sample_rate < 2 ^ 31"
  shows "\<exists>n. n_samples duration sample_rate = Returns n \<and> - (2 ^ 63) \<le> n \<and> n \<le> 0"
proof (cases duration)
  case (PyInt d)
  with assms(1) have r: "r = of_int d" by simp
  with assms(2) have "d * int sample_rate \<le> 0" by (simp add: mult_le_0_iff)
  moreover from assms(3) have "of_int (- (2 ^ 63)) \<le> (of_int (d * int sample_rate) :: real)"
    by (simp add: r)
  then have "- (2 ^ 63) \<le> d * int sample_rate" by (simp only: of_int_le_iff)
  ultimately show ?thesis by (simp add: PyInt n_samples_int)
next
  case (PyFloat x)
  with assms(1) have x: "x = Finite r" by (cases x) simp_all
  let ?P = "rnd_real (r * real sample_rate)"
  from assms(2) have np: "r * real sample_rate \<le> 0" by (simp add: mult_le_0_iff)
  with assms(3) have b: "\<bar>r * real sample_rate\<bar> \<le> 2 ^ 63" by simp
  have f: "rnd (r * real sample_rate) = Finite ?P"
    using b rnd_real_power[of 63] below_overflow[of "2 ^ 63" 63] by (intro rnd_bounded(1)) simp_all
  from np have "?P \<le> rnd_real 0" by (rule rnd_real_mono)
  then have "?P \<le> of_int 0" by simp
  then have hi: "round_half_even ?P \<le> 0" by (rule rhe_le)
  from assms(3) have "rnd_real (- (2 ^ 63)) \<le> ?P" by (rule rnd_real_mono)
  then have "of_int (- (2 ^ 63)) \<le> ?P" using rnd_real_power[of 63] by (simp add: rnd_real_minus)
  then have lo: "- (2 ^ 63) \<le> round_half_even ?P" by (rule rhe_ge)
  from f hi lo show ?thesis by (simp add: PyFloat x n_samples_float[OF assms(4)])
qed

text \<open>
  The products of lines 36 and 40 are rounded to a float before \<^verbatim>\<open>round\<close> and \<^verbatim>\<open>int\<close> see
  them. For the volume \<open>35185445863425 / 2 ^ 60\<close>, a float just below \<open>1 / 32767\<close>, the
  product rounds to 1 and the amplitude is 1; for the duration \<open>6692696262570359 / 2 ^ 69\<close>,
  a float just above \<open>1 / 88200\<close>, the product rounds to one half and the count is 0.
\<close>

lemma max_amp_of_rounded_product: "max_amp (PyFloat (Finite (35185445863425 / 2 ^ 60))) = Returns 1"
  by (simp add: float_eval)

lemma n_samples_of_rounded_product:
  "n_samples (PyFloat (Finite (6692696262570359 / 2 ^ 69))) 44100 = Returns 0"
  by (simp add: float_eval)

text \<open>
  Exceptions raised before the loop: an infinite duration in \<^verbatim>\<open>int(round(...))\<close> on line
  36, and an infinite volume in \<^verbatim>\<open>int(...)\<close> on line 40, also when the count is zero.
\<close>

lemma infinite_duration_raises:
  "make_sound pf freq (PyFloat NInf) volume shape decay 44100 = Raises OverflowError"
  by (simp add: make_sound_def n_samples_def to_float_exact inf_with_sign_def)

lemma infinite_volume_raises:
  "make_sound pf freq (PyFloat (Finite 0)) (PyFloat PInf) shape decay 44100 = Raises OverflowError"
  by (simp add: make_sound_def n_samples_def max_amp_def to_float_exact inf_with_sign_def)

section \<open>The range of a sample\<close>

text \<open>
  Bounds on every intermediate value of one pass of the loop, for a duration of at most
  \<open>2 ^ 20\<close> seconds and a frequency of at most \<open>2 ^ 16\<close> Hz in magnitude.
\<close>

lemma rnd_real_le: "x \<le> B \<Longrightarrow> rnd_real B = B \<Longrightarrow> rnd_real x \<le> B"
  using rnd_real_mono[of x B] by simp

lemma fmul_Finite_bound:
  assumes "\<bar>x * y\<bar> \<le> 2 ^ k" and "k \<le> 1023"
  shows "fmul (Finite x) (Finite y) = Finite (rnd_real (x * y))" and "\<bar>rnd_real (x * y)\<bar> \<le> 2 ^ k"
proof -
  have o: "(2::real) ^ k < pow2 1024" using assms(2) by (intro below_overflow[of _ k]) simp_all
  from assms(1) rnd_real_power o show "\<bar>rnd_real (x * y)\<bar> \<le> 2 ^ k" by (rule rnd_bounded(2))
  from assms(1) rnd_real_power o have "rnd (x * y) = Finite (rnd_real (x * y))" by (rule rnd_bounded(1))
  then show "fmul (Finite x) (Finite y) = Finite (rnd_real (x * y))" by simp
qed

lemma rnd_real_quarter: "rnd_real (1 / 4) = 1 / 4"
  using rnd_real_pow2[of "- 2"] by (simp add: pow2_def)

lemma index_facts:
  assumes n: "n_samples duration sample_rate = Returns n"
    and r: "num_value duration = Some r" "\<bar>r\<bar> \<le> 2 ^ 20"
    and sr: "sample_rate < 2 ^ 31"
    and i: "int i < n"
  shows "0 < sample_rate" and "0 < r" and "real i / real sample_rate \<le> r"
    and "1 / 4 \<le> r * real sample_rate" and "as_float duration = Returns (Finite r)"
proof -
  have "0 < sample_rate \<and> 0 < r \<and> real i < r * real sample_rate
        \<and> 1 / 4 \<le> r * real sample_rate \<and> as_float duration = Returns (Finite r)"
  proof (cases duration)
    case (PyInt d)
    with r have rd: "r = of_int d" by simp
    from n PyInt have nd: "n = d * int sample_rate" by (simp add: n_samples_int)
    with i have pos: "0 < d * int sample_rate" by linarith
    then have sr0: "0 < sample_rate" by (cases "sample_rate = 0") simp_all
    with pos have d0: "0 < d" by (simp add: zero_less_mult_iff)
    from r(2) rd have "\<bar>d\<bar> \<le> 2 ^ 20"
      by (metis of_int_abs of_int_le_iff of_int_numeral of_int_power)
    then have "\<bar>d\<bar> < 2 ^ 53" by simp
    from to_float_exact[OF this] have af: "as_float duration = Returns (Finite r)" by (simp add: PyInt rd)
    from i nd have "of_int (int i) < (of_int (d * int sample_rate) :: real)" by (simp only: of_int_less_iff)
    then have il: "real i < r * real sample_rate" by (simp add: rd)
    from d0 sr0 have "1 \<le> d" "1 \<le> int sample_rate" by simp_all
    then have "1 * 1 \<le> d * int sample_rate" by (intro mult_mono) simp_all
    then have "(of_int (1 * 1) :: real) \<le> of_int (d * int sample_rate)" by (simp only: of_int_le_iff)
    then have "1 / 4 \<le> r * real sample_rate" by (simp add: rd)
    with sr0 d0 rd af il show ?thesis by simp
  next
    case (PyFloat y)
    with r(1) have y: "y = Finite r" by (cases y) simp_all
    let ?x = "r * real sample_rate"
    let ?P = "rnd_real ?x"
    have "real sample_rate \<le> 2 ^ 31" using sr by (metis less_imp_le of_nat_le_iff of_nat_numeral of_nat_power)
    with r(2) have "\<bar>r\<bar> * real sample_rate \<le> 2 ^ 20 * 2 ^ 31" by (intro mult_mono) simp_all
    then have "\<bar>?x\<bar> \<le> 2 ^ 20 * 2 ^ 31" by (simp add: abs_mult)
    then have xb: "\<bar>?x\<bar> \<le> 2 ^ 51" by simp
    have o51: "(2::real) ^ 51 < pow2 1024" by (intro below_overflow[of _ 51]) simp_all
    from xb rnd_real_power o51 have f: "rnd ?x = Finite ?P" by (rule rnd_bounded(1))
    from n have nP: "n = round_half_even ?P" by (simp add: PyFloat y n_samples_float[OF sr] f)
    have q: "1 / 4 \<le> ?x"
    proof (rule ccontr)
      assume "\<not> 1 / 4 \<le> ?x"
      then have "?x \<le> 1 / 4" by simp
      then have "?P \<le> 1 / 4" using rnd_real_quarter by (rule rnd_real_le)
      then have "round_half_even ?P \<le> round_half_even (1 / 4)" by (rule rhe_mono)
      also have "round_half_even (1 / 4) = 0" by (simp add: round_half_even_def)
      finally show False using nP i by simp
    qed
    then have xpos: "0 < ?x" by simp
    have sr0: "0 < sample_rate" using xpos by (cases "sample_rate = 0") simp_all
    with xpos have r0: "0 < r" by (simp add: zero_less_mult_iff)
    have "pow2 (- 1022) \<le> pow2 (- 2)" by (intro pow2_mono) simp
    also have "pow2 (- 2) = 1 / 4" by (simp add: pow2_def)
    finally have "pow2 (- 1022) \<le> \<bar>?x\<bar>" using q by simp
    from rnd_real_rel_error[OF this] have "\<bar>?P - ?x\<bar> \<le> \<bar>?x\<bar> / 2 ^ 53" .
    also have "\<bar>?x\<bar> / 2 ^ 53 \<le> 2 ^ 51 / 2 ^ 53" using xb by (simp add: divide_right_mono)
    finally have "\<bar>?P - ?x\<bar> \<le> 1 / 4" by simp
    then have "?P \<le> ?x + 1 / 4" by linarith
    moreover have "of_int n \<le> ?P + 1 / 2" using rhe_error[of ?P] unfolding nP by linarith
    moreover from i have "int i + 1 \<le> n" by simp
    then have "(of_int (int i + 1) :: real) \<le> of_int n" by (simp only: of_int_le_iff)
    ultimately have "real i < ?x" by simp
    with sr0 r0 q y PyFloat show ?thesis by simp
  qed
  then show "0 < sample_rate" and "0 < r" and "1 / 4 \<le> r * real sample_rate"
    and "as_float duration = Returns (Finite r)" and "real i / real sample_rate \<le> r"
    by (simp_all add: field_simps)
qed

lemma sample_time_bounds:
  assumes sr: "0 < sample_rate" "sample_rate < 2 ^ 31"
    and i: "real i / real sample_rate \<le> r" and r: "r \<le> 2 ^ 20"
  shows "\<exists>t. sample_time sample_rate i = Returns (Finite t) \<and> 0 \<le> t \<and> t \<le> rnd_real r \<and> t \<le> 2 ^ 20"
proof -
  let ?t = "rnd_real (real i / real sample_rate)"
  from i sr(1) have "real i \<le> r * real sample_rate" by (simp add: field_simps)
  also from r have "\<dots> \<le> 2 ^ 20 * real sample_rate" by (intro mult_right_mono) simp_all
  finally have "real i \<le> 2 ^ 20 * real sample_rate" .
  also have "\<dots> < 2 ^ 20 * 2 ^ 31" using sr(2) by simp
  finally have "real i < 2 ^ 53" by simp
  then have "i < 2 ^ 53" by (metis of_nat_less_iff of_nat_numeral of_nat_power)
  then have fi: "to_float (int i) = Returns (Finite (real i))" by (rule to_float_nat)
  have b: "\<bar>real i / real sample_rate\<bar> \<le> 2 ^ 20" using i r by simp
  have o: "(2::real) ^ 20 < pow2 1024" by (intro below_overflow[of _ 20]) simp_all
  from b rnd_real_power o have f: "rnd (real i / real sample_rate) = Finite ?t" by (rule rnd_bounded(1))
  from b rnd_real_power o have "\<bar>?t\<bar> \<le> 2 ^ 20" by (rule rnd_bounded(2))
  moreover have "0 \<le> ?t" by (intro rnd_real_nonneg) simp
  moreover from i have "?t \<le> rnd_real r" by (rule rnd_real_mono)
  ultimately show ?thesis using sr(1) fi to_float_sample_rate[OF sr(2)] f
    by (simp add: sample_time_def)
qed

lemma as_float_num_value:
  assumes "num_value x = Some f" and "\<bar>f\<bar> \<le> 2 ^ 16"
  shows "as_float x = Returns (Finite f)"
proof (cases x)
  case (PyInt k)
  with assms have f: "f = of_int k" and "\<bar>of_int k :: real\<bar> \<le> 2 ^ 16" by simp_all
  then have "\<bar>k\<bar> \<le> 2 ^ 16" by (metis of_int_abs of_int_le_iff of_int_numeral of_int_power)
  then have "\<bar>k\<bar> < 2 ^ 53" by simp
  from to_float_exact[OF this] show ?thesis by (simp add: PyInt f)
next
  case (PyFloat y)
  with assms(1) show ?thesis by (cases y) simp_all
qed

lemma rnd_real_2 [simp]: "rnd_real 2 = 2"
  using rnd_real_power[of 1] by simp

lemma current_freq_bounds:
  assumes f: "num_value freq = Some f" "\<bar>f\<bar> \<le> 2 ^ 16"
    and d: "as_float duration = Returns (Finite r)"
    and r: "pow2 (- 1022) \<le> r"
    and t: "0 \<le> t" "t \<le> rnd_real r"
  shows "\<exists>cf c. current_freq freq duration decay (Finite t) = Returns cf
    \<and> as_float cf = Returns (Finite c) \<and> \<bar>c\<bar> \<le> 2 ^ 16"
proof (cases decay)
  case False
  with as_float_num_value[OF f] f(2) show ?thesis by (simp add: current_freq_def)
next
  case True
  from r have r0: "0 < r" using pow2_pos[of "- 1022"] by linarith
  from r r0 have "pow2 (- 1022) \<le> \<bar>r\<bar>" by simp
  from rnd_real_rel_error[OF this] r0 have "\<bar>rnd_real r - r\<bar> \<le> r / 2 ^ 53" by simp
  also have "r / 2 ^ 53 \<le> r" using r0 by (simp add: field_simps)
  finally have "rnd_real r \<le> 2 * r" by linarith
  with t(2) have "t \<le> 2 * r" by linarith
  with r0 have q2: "t / r \<le> 2" by (simp add: field_simps)
  from t(1) r0 have q0: "0 \<le> t / r" by simp
  let ?q = "rnd_real (t / r)"
  from q0 q2 have "\<bar>t / r\<bar> \<le> 2 ^ 1" by simp
  from rnd_bounded[OF this rnd_real_power below_overflow[of _ 1]]
  have qf: "rnd (t / r) = Finite ?q" and "\<bar>?q\<bar> \<le> 2" by simp_all
  moreover from q0 have "0 \<le> ?q" by (rule rnd_real_nonneg)
  ultimately have qb: "0 \<le> ?q" "?q \<le> 2" by simp_all
  let ?w = "rnd_real (1 - ?q)"
  from qb have "\<bar>1 - ?q\<bar> \<le> 2 ^ 0" by simp
  from rnd_bounded[OF this rnd_real_power below_overflow[of _ 0]]
  have wf: "rnd (1 - ?q) = Finite ?w" and wb: "\<bar>?w\<bar> \<le> 1" by simp_all
  let ?c = "rnd_real (f * ?w)"
  have "\<bar>f\<bar> * \<bar>?w\<bar> \<le> 2 ^ 16 * 1" using f(2) wb by (intro mult_mono) simp_all
  then have "\<bar>f * ?w\<bar> \<le> 2 ^ 16" by (simp add: abs_mult)
  from rnd_bounded[OF this rnd_real_power below_overflow[of _ 16]]
  have cf: "rnd (f * ?w) = Finite ?c" and cb: "\<bar>?c\<bar> \<le> 2 ^ 16" by simp_all
  from r0 have "r \<noteq> 0" by simp
  with True d as_float_num_value[OF f] qf wf cf cb show ?thesis
    by (simp add: current_freq_def fsub_def)
qed

lemma two_pi_bound: "\<bar>2 * (884279719003555 / 2 ^ 48) :: real\<bar> \<le> 2 ^ 3"
  by simp

lemma angle_finite:
  assumes c: "as_float cf = Returns (Finite c)" "\<bar>c\<bar> \<le> 2 ^ 16"
    and t: "0 \<le> t" "t \<le> 2 ^ 20"
  shows "\<exists>x. angle cf (Finite t) = Returns (Finite x)"
proof -
  let ?p = "rnd_real (2 * (884279719003555 / 2 ^ 48))"
  from rnd_bounded[OF two_pi_bound rnd_real_power below_overflow[of _ 3]]
  have pf: "rnd (2 * (884279719003555 / 2 ^ 48)) = Finite ?p" and pb: "\<bar>?p\<bar> \<le> 2 ^ 3" by simp_all
  let ?y = "rnd_real (?p * c)"
  have "\<bar>?p\<bar> * \<bar>c\<bar> \<le> 2 ^ 3 * 2 ^ 16" using pb c(2) by (intro mult_mono) simp_all
  then have "\<bar>?p * c\<bar> \<le> 2 ^ 19" by (simp add: abs_mult)
  from rnd_bounded[OF this rnd_real_power below_overflow[of _ 19]]
  have yf: "rnd (?p * c) = Finite ?y" and yb: "\<bar>?y\<bar> \<le> 2 ^ 19" by simp_all
  let ?x = "rnd_real (?y * t)"
  have "\<bar>?y\<bar> * \<bar>t\<bar> \<le> 2 ^ 19 * 2 ^ 20" using yb t by (intro mult_mono) simp_all
  then have "\<bar>?y * t\<bar> \<le> 2 ^ 39" by (simp add: abs_mult)
  from rnd_bounded[OF this rnd_real_power below_overflow[of _ 39]]
  have xf: "rnd (?y * t) = Finite ?x" by simp_all
  have "angle cf (Finite t) = Returns (fmul (fmul (fmul (Finite 2) math_pi) (Finite c)) (Finite t))"
    using c(1) by (simp add: angle_def)
  also have "fmul (Finite 2) math_pi = Finite ?p" using pf by (simp only: math_pi_def fmul.simps)
  also have "fmul (Finite ?p) (Finite c) = Finite ?y" using yf by (simp only: fmul.simps)
  also have "fmul (Finite ?y) (Finite t) = Finite ?x" using xf by (simp only: fmul.simps)
  finally show ?thesis by blast
qed

lemma store_int: "- 32768 \<le> k \<Longrightarrow> k \<le> 32767 \<Longrightarrow> store (PyInt k) = Returns k"
  by (simp add: store_def)

lemma store_float:
  assumes "\<bar>x\<bar> < of_int a + 1" and "a \<le> 32767"
  shows "\<exists>v. store (PyFloat (Finite x)) = Returns v \<and> - a \<le> v \<and> v \<le> a"
proof -
  from py_trunc_bound[OF assms(1)] have "- a \<le> py_trunc x" "py_trunc x \<le> a" .
  with assms(2) show ?thesis by (simp add: store_def)
qed

lemma square_range:
  assumes c: "as_float cf = Returns (Finite c)" "\<bar>c\<bar> \<le> 2 ^ 16"
    and t: "0 \<le> t" "t \<le> 2 ^ 20"
    and a: "0 \<le> a" "a \<le> 32767"
  shows "\<exists>v. obind (wave pf ''square'' a cf (Finite t)) store = Returns v \<and> - a \<le> v \<and> v \<le> a"
proof -
  from angle_finite[OF c t] obtain x where "angle cf (Finite t) = Returns (Finite x)" ..
  then have "wave pf ''square'' a cf (Finite t) = Returns (PyInt a)
    \<or> wave pf ''square'' a cf (Finite t) = Returns (PyInt (- a))"
    by (simp add: wave_def)
  with a show ?thesis by (auto simp: store_int)
qed

lemma sine_range:
  assumes c: "as_float cf = Returns (Finite c)" "\<bar>c\<bar> \<le> 2 ^ 16"
    and t: "0 \<le> t" "t \<le> 2 ^ 20"
    and a: "0 \<le> a" "a \<le> 32767"
    and s: "\<forall>x. \<bar>libm_sin pf x\<bar> \<le> 1"
    and sh: "shape \<noteq> ''square''" "shape \<noteq> ''sawtooth''"
  shows "\<exists>v. obind (wave pf shape a cf (Finite t)) store = Returns v \<and> - a \<le> v \<and> v \<le> a"
proof -
  from angle_finite[OF c t] obtain x where x: "angle cf (Finite t) = Returns (Finite x)" ..
  define y where "y = (if x = 0 then 0 else libm_sin pf x)"
  from s have yb: "\<bar>y\<bar> \<le> 1" by (simp add: y_def)
  from a have "\<bar>a\<bar> < 2 ^ 53" by simp
  then have fa: "to_float a = Returns (Finite (of_int a))" and ra: "rnd_real (of_int a) = of_int a"
    by (rule to_float_exact, rule rnd_real_of_int)
  have "\<bar>of_int a :: real\<bar> * \<bar>y\<bar> \<le> \<bar>of_int a\<bar> * 1" using yb by (intro mult_left_mono) simp_all
  with a(1) have b: "\<bar>of_int a * y\<bar> \<le> of_int a" by (simp add: abs_mult)
  have "(of_int a :: real) \<le> 2 ^ 15" using a(2) by simp
  then have o: "(of_int a :: real) < pow2 1024" by (rule below_overflow) simp
  from rnd_bounded[OF b ra o]
  have vf: "rnd (of_int a * y) = Finite (rnd_real (of_int a * y))"
    and vb: "\<bar>rnd_real (of_int a * y)\<bar> \<le> of_int a" by simp_all
  from x fa vf sh have "wave pf shape a cf (Finite t) = Returns (PyFloat (Finite (rnd_real (of_int a * y))))"
    by (simp add: wave_def y_def)
  moreover from vb have "\<bar>rnd_real (of_int a * y)\<bar> < of_int a + 1" by simp
  from store_float[OF this a(2)] obtain v where
    "store (PyFloat (Finite (rnd_real (of_int a * y)))) = Returns v" "- a \<le> v" "v \<le> a" by blast
  ultimately show ?thesis by simp
qed

lemma binade_less:
  assumes "x \<noteq> 0" and "\<bar>x\<bar> < pow2 k"
  shows "binade x < k"
proof -
  from binade_bounds(1)[OF assms(1)] assms(2) have "pow2 (binade x) < pow2 k" by simp
  then show ?thesis by (simp add: pow2_less_iff)
qed

lemma rnd_real_error_37:
  assumes "\<bar>x\<bar> < 2 ^ 37"
  shows "\<bar>rnd_real x - x\<bar> \<le> 1 / 2 ^ 17"
proof (cases "x = 0")
  case True
  then show ?thesis by simp
next
  case False
  from assms have "\<bar>x\<bar> < pow2 37" by (simp add: pow2_def)
  from binade_less[OF False this] have "ulp_exp x \<le> - 16" by (simp add: ulp_exp_def)
  then have "pow2 (ulp_exp x) \<le> pow2 (- 16)" by (rule pow2_mono)
  then have "pow2 (ulp_exp x) / 2 \<le> pow2 (- 16) / 2" by simp
  also have "pow2 (- 16) / 2 = 1 / 2 ^ 17" by (simp add: pow2_def)
  finally show ?thesis using rnd_real_error[OF False] by linarith
qed

lemma rnd_real_scaled:
  assumes "\<bar>m\<bar> < 2 ^ 53" and "k \<le> 1074"
  shows "rnd_real (of_int m / 2 ^ k) = of_int m / 2 ^ k"
proof -
  have "(of_int m :: real) / 2 ^ k = of_int m * pow2 (- int k)" by (simp add: pow2_def divide_inverse)
  moreover from assms(2) have "- 1074 \<le> - int k" by simp
  ultimately show ?thesis using rnd_real_exact[of "of_int m / 2 ^ k" m "- int k"] assms(1) by simp
qed

lemma sawtooth_range:
  assumes c: "as_float cf = Returns (Finite c)" "\<bar>c\<bar> \<le> 2 ^ 16"
    and t: "0 \<le> t" "t \<le> 2 ^ 20"
    and a: "0 \<le> a" "a \<le> 32767"
  shows "\<exists>v. obind (wave pf ''sawtooth'' a cf (Finite t)) store = Returns v \<and> - a \<le> v \<and> v \<le> a"
proof -
  let ?p = "rnd_real (t * c)"
  have "\<bar>t\<bar> * \<bar>c\<bar> \<le> 2 ^ 20 * 2 ^ 16" using t c(2) by (intro mult_mono) simp_all
  then have "\<bar>t * c\<bar> \<le> 2 ^ 36" by (simp add: abs_mult)
  from rnd_bounded[OF this rnd_real_power below_overflow[of _ 36]]
  have pf: "rnd (t * c) = Finite ?p" and pb: "\<bar>?p\<bar> \<le> 2 ^ 36" by simp_all
  let ?y = "rnd_real (1 / 2 + ?p)"
  from pb have sb: "\<bar>1 / 2 + ?p\<bar> \<le> 2 ^ 37" by simp
  from rnd_bounded[OF this rnd_real_power below_overflow[of _ 37]]
  have yf: "rnd (1 / 2 + ?p) = Finite ?y" and yb: "\<bar>?y\<bar> \<le> 2 ^ 37" by simp_all
  from pb have "\<bar>1 / 2 + ?p\<bar> < 2 ^ 37" by simp
  from rnd_real_error_37[OF this] have ye: "\<bar>?y - (1 / 2 + ?p)\<bar> \<le> 1 / 2 ^ 17" .
  define n where "n = \<lfloor>?y\<rfloor>"
  have nl: "of_int n \<le> ?y" and nu: "?y < of_int n + 1" by (simp_all add: n_def)
  from nl nu yb have "\<bar>of_int n :: real\<bar> < 2 ^ 37 + 1" by linarith
  then have "\<bar>of_int n :: real\<bar> < 2 ^ 53" by simp
  then have "\<bar>n\<bar> < 2 ^ 53" by (metis of_int_abs of_int_less_iff of_int_numeral of_int_power)
  then have fn: "to_float n = Returns (Finite (of_int n))" by (rule to_float_exact)
  from a have "\<bar>a\<bar> < 2 ^ 53" by simp
  then have fa: "to_float a = Returns (Finite (of_int a))" by (rule to_float_exact)
  let ?d = "rnd_real (?p - of_int n)"
  have r1: "rnd_real (65537 / 2 ^ 17) = 65537 / 2 ^ 17"
    using rnd_real_scaled[of 65537 17] by simp
  have r2: "rnd_real (65537 / 2 ^ 16) = 65537 / 2 ^ 16"
    using rnd_real_scaled[of 65537 16] by simp
  have o1: "(65537 / 2 ^ 17 :: real) < pow2 1024" by (rule below_overflow[of _ 0]) simp_all
  have o2: "(65537 / 2 ^ 16 :: real) < pow2 1024" by (rule below_overflow[of _ 1]) simp_all
  from ye nl nu have "\<bar>?p - of_int n\<bar> \<le> 1 / 2 + 1 / 2 ^ 17" by linarith
  then have "\<bar>?p - of_int n\<bar> \<le> 65537 / 2 ^ 17" by simp
  from rnd_bounded[OF this r1 o1]
  have df: "rnd (?p - of_int n) = Finite ?d" and db: "\<bar>?d\<bar> \<le> 65537 / 2 ^ 17" by simp_all
  let ?e = "rnd_real (2 * ?d)"
  from db have "\<bar>2 * ?d\<bar> \<le> 65537 / 2 ^ 16" by simp
  from rnd_bounded[OF this r2 o2]
  have ef: "rnd (2 * ?d) = Finite ?e" and eb: "\<bar>?e\<bar> \<le> 65537 / 2 ^ 16" by simp_all
  let ?v = "rnd_real (of_int a * ?e)"
  have r3: "rnd_real (of_int (2 * a + 1) / 2 ^ 1) = of_int (2 * a + 1) / 2 ^ 1"
    using a by (intro rnd_real_scaled) simp_all
  have "(of_int (2 * a + 1) / 2 ^ 1 :: real) \<le> 2 ^ 16" using a by simp
  then have o3: "(of_int (2 * a + 1) / 2 ^ 1 :: real) < pow2 1024" by (rule below_overflow) simp
  have "\<bar>of_int a :: real\<bar> * \<bar>?e\<bar> \<le> of_int a * (65537 / 2 ^ 16)"
    using eb a(1) by (intro mult_mono) simp_all
  also have "\<dots> = of_int a + of_int a / 2 ^ 16" by (simp add: field_simps)
  also have "\<dots> \<le> of_int a + 1 / 2" using a(2) by simp
  finally have "\<bar>of_int a * ?e\<bar> \<le> of_int (2 * a + 1) / 2 ^ 1" by (simp add: abs_mult)
  from rnd_bounded[OF this r3 o3]
  have vf: "rnd (of_int a * ?e) = Finite ?v" and vb: "\<bar>?v\<bar> \<le> of_int (2 * a + 1) / 2 ^ 1" by simp_all
  have "wave pf ''sawtooth'' a cf (Finite t) = Returns (PyFloat (Finite ?v))"
    using c(1) pf yf fn fa df ef vf by (simp add: wave_def fsub_def n_def)
  moreover from vb have "\<bar>?v\<bar> < of_int a + 1" by simp
  from store_float[OF this a(2)] obtain v where
    "store (PyFloat (Finite ?v)) = Returns v" "- a \<le> v" "v \<le> a" by blast
  ultimately show ?thesis by simp
qed

lemma n_samples_bounded:
  assumes r: "num_value duration = Some r" "\<bar>r\<bar> \<le> 2 ^ 20" and sr: "sample_rate < 2 ^ 31"
  shows "\<exists>n. n_samples duration sample_rate = Returns n \<and> - (2 ^ 51) \<le> n \<and> n \<le> 2 ^ 51"
proof (cases duration)
  case (PyInt d)
  with r have "\<bar>of_int d :: real\<bar> \<le> 2 ^ 20" by simp
  then have d: "\<bar>d\<bar> \<le> 2 ^ 20" by (metis of_int_abs of_int_le_iff of_int_numeral of_int_power)
  from sr have "int sample_rate \<le> 2 ^ 31" by simp
  with d have "\<bar>d\<bar> * \<bar>int sample_rate\<bar> \<le> 2 ^ 20 * 2 ^ 31" by (intro mult_mono) simp_all
  then have "\<bar>d * int sample_rate\<bar> \<le> 2 ^ 51" by (simp add: abs_mult)
  then show ?thesis by (simp add: PyInt n_samples_int abs_le_iff)
next
  case (PyFloat y)
  with r(1) have y: "y = Finite r" by (cases y) simp_all
  let ?x = "r * real sample_rate"
  have "real sample_rate \<le> 2 ^ 31" using sr by (metis less_imp_le of_nat_le_iff of_nat_numeral of_nat_power)
  with r(2) have "\<bar>r\<bar> * real sample_rate \<le> 2 ^ 20 * 2 ^ 31" by (intro mult_mono) simp_all
  then have xb: "\<bar>?x\<bar> \<le> 2 ^ 51" by (simp add: abs_mult)
  have o: "(2::real) ^ 51 < pow2 1024" by (intro below_overflow[of _ 51]) simp_all
  from xb rnd_real_power o have f: "rnd ?x = Finite (rnd_real ?x)" by (rule rnd_bounded(1))
  from xb rnd_real_power o have "\<bar>rnd_real ?x\<bar> \<le> 2 ^ 51" by (rule rnd_bounded(2))
  then have "rnd_real ?x \<le> of_int (2 ^ 51)" "of_int (- (2 ^ 51)) \<le> rnd_real ?x" by simp_all
  then have "round_half_even (rnd_real ?x) \<le> 2 ^ 51" "- (2 ^ 51) \<le> round_half_even (rnd_real ?x)"
    by (simp_all only: rhe_le rhe_ge)
  then show ?thesis by (simp add: PyFloat y n_samples_float[OF sr] f)
qed

lemma sample_range:
  assumes n: "n_samples duration sample_rate = Returns n"
    and r: "num_value duration = Some r" "\<bar>r\<bar> \<le> 2 ^ 20"
    and f: "num_value freq = Some f" "\<bar>f\<bar> \<le> 2 ^ 16"
    and sr: "sample_rate < 2 ^ 31"
    and i: "int i < n"
    and a: "0 \<le> a" "a \<le> 32767"
    and s: "\<forall>x. \<bar>libm_sin pf x\<bar> \<le> 1"
  shows "\<exists>v. sample pf freq duration a shape decay sample_rate i = Returns v \<and> - a \<le> v \<and> v \<le> a"
proof -
  note ix = index_facts[OF n r sr i]
  from r(2) have r20: "r \<le> 2 ^ 20" by simp
  from sample_time_bounds[OF ix(1) sr ix(3) r20] obtain t where
    t: "sample_time sample_rate i = Returns (Finite t)" "0 \<le> t" "t \<le> rnd_real r" "t \<le> 2 ^ 20"
    by blast
  have "real sample_rate \<le> 2 ^ 31" using sr by (metis less_imp_le of_nat_le_iff of_nat_numeral of_nat_power)
  with ix(2) have "r * real sample_rate \<le> r * 2 ^ 31" by (intro mult_left_mono) simp_all
  with ix(4) have "1 / 2 ^ 33 \<le> r" by simp
  moreover have "pow2 (- 1022) \<le> pow2 (- 33)" by (intro pow2_mono) simp
  moreover have "pow2 (- 33) = 1 / 2 ^ 33" by (simp add: pow2_def)
  ultimately have rl: "pow2 (- 1022) \<le> r" by linarith
  from current_freq_bounds[OF f ix(5) rl t(2,3), of decay] obtain cf c where
    cf: "current_freq freq duration decay (Finite t) = Returns cf"
      "as_float cf = Returns (Finite c)" "\<bar>c\<bar> \<le> 2 ^ 16" by blast
  have "\<exists>v. obind (wave pf shape a cf (Finite t)) store = Returns v \<and> - a \<le> v \<and> v \<le> a"
  proof (cases "shape = ''square''")
    case True
    with square_range[OF cf(2,3) t(2,4) a] show ?thesis by simp
  next
    case sq: False
    show ?thesis
    proof (cases "shape = ''sawtooth''")
      case True
      with sawtooth_range[OF cf(2,3) t(2,4) a] show ?thesis by simp
    next
      case False
      from sine_range[OF cf(2,3) t(2,4) a s sq False] show ?thesis .
    qed
  qed
  with t(1) cf(1) show ?thesis by (simp add: sample_def)
qed

lemma libm_sin_reference: "\<bar>libm_sin reference_platform x\<bar> \<le> 1"
proof -
  have "\<bar>sin x\<bar> \<le> 1" by simp
  then have "\<bar>rnd_real (sin x)\<bar> \<le> 1" using rnd_real_1 by (rule rnd_real_abs_le)
  then show ?thesis by (simp add: reference_platform_def)
qed

lemma make_sound_total:
  assumes v: "num_value volume = Some v" "0 \<le> v" "v \<le> 1"
    and r: "num_value duration = Some r" "\<bar>r\<bar> \<le> 2 ^ 20"
    and f: "num_value freq = Some f" "\<bar>f\<bar> \<le> 2 ^ 16"
    and sr: "sample_rate < 2 ^ 31"
    and s: "\<forall>x. \<bar>libm_sin pf x\<bar> \<le> 1"
  shows "\<exists>n a p. n_samples duration sample_rate = Returns n
      \<and> max_amp volume = Returns a \<and> peak volume = Returns p \<and> 0 \<le> a \<and> a \<le> p \<and> p \<le> 32767
      \<and> (if n \<le> int (capacity pf)
          then \<exists>xs. make_sound pf freq duration volume shape decay sample_rate = Returns xs
                 \<and> int (length xs) = max 0 n \<and> (\<forall>x \<in> set xs. - a \<le> x \<and> x \<le> a)
          else make_sound pf freq duration volume shape decay sample_rate = Raises MemoryError)"
proof -
  from n_samples_bounded[OF r sr] obtain n where
    n: "n_samples duration sample_rate = Returns n" "- (2 ^ 51) \<le> n" "n \<le> 2 ^ 51" by blast
  from max_amp_range[OF v] obtain a p where
    a: "max_amp volume = Returns a" "peak volume = Returns p" "0 \<le> a" "a \<le> p" "p \<le> 32767" by blast
  from n(2,3) have nr: "\<not> (n < - (2 ^ 63) \<or> 2 ^ 63 \<le> n)" by simp
  have "if n \<le> int (capacity pf)
          then \<exists>xs. make_sound pf freq duration volume shape decay sample_rate = Returns xs
                 \<and> int (length xs) = max 0 n \<and> (\<forall>x \<in> set xs. - a \<le> x \<and> x \<le> a)
          else make_sound pf freq duration volume shape decay sample_rate = Raises MemoryError"
  proof (cases "n \<le> int (capacity pf)")
    case False
    with n(1) nr show ?thesis by (simp add: make_sound_def)
  next
    case True
    from a(3,4,5) have a': "0 \<le> a" "a \<le> 32767" by simp_all
    have "\<forall>i \<in> set [0 ..< nat n]. \<exists>v. sample pf freq duration a shape decay sample_rate i = Returns v
        \<and> (- a \<le> v \<and> v \<le> a)"
    proof
      fix i assume "i \<in> set [0 ..< nat n]"
      then have "int i < n" by simp
      from sample_range[OF n(1) r f sr this a' s]
      show "\<exists>v. sample pf freq duration a shape decay sample_rate i = Returns v \<and> (- a \<le> v \<and> v \<le> a)" .
    qed
    from fill_all[OF this] obtain xs where
      xs: "fill (sample pf freq duration a shape decay sample_rate) [0 ..< nat n] = Returns xs"
        "length xs = length [0 ..< nat n]" "\<forall>x \<in> set xs. - a \<le> x \<and> x \<le> a" by blast
    from True n(1) nr a(1) xs(1)
    have "make_sound pf freq duration volume shape decay sample_rate = Returns xs"
      by (simp add: make_sound_def)
    moreover from xs(2) have "int (length xs) = max 0 n" by simp
    ultimately show ?thesis using True xs(3) by simp
  qed
  with n(1) a show ?thesis by blast
qed

lemma eat_sound_returns:
  "\<exists>xs. eat_sound reference_platform = Returns xs \<and> length xs = 2205
     \<and> (\<forall>x \<in> set xs. - 13106 \<le> x \<and> x \<le> 13106)"
proof -
  have v: "num_value (PyFloat (rnd 0.4)) = Some (3602879701896397 / 2 ^ 53)"
    by (simp only: rnd_04 num_value.simps)
  have r: "num_value (PyFloat (rnd 0.05)) = Some (3602879701896397 / 2 ^ 56)"
    by (simp only: rnd_005 num_value.simps)
  have f: "num_value (PyInt 1200) = Some 1200" by simp
  have s: "\<forall>x. \<bar>libm_sin reference_platform x\<bar> \<le> 1" by (simp add: libm_sin_reference)
  let ?m = "make_sound reference_platform (PyInt 1200) (PyFloat (rnd 0.05)) (PyFloat (rnd 0.4))
    ''square'' False 44100"
  from make_sound_total[OF v _ _ r _ f _ _ s, of 44100 "''square''" False]
  obtain n a where n: "n_samples (PyFloat (rnd 0.05)) 44100 = Returns n"
    and a: "max_amp (PyFloat (rnd 0.4)) = Returns a"
    and m: "if n \<le> int (capacity reference_platform)
          then \<exists>xs. ?m = Returns xs \<and> int (length xs) = max 0 n \<and> (\<forall>x \<in> set xs. - a \<le> x \<and> x \<le> a)
          else ?m = Raises MemoryError"
    by auto
  from n eat_n_samples have n': "n = 2205" by (simp only: outcome.inject)
  from a eat_max_amp have a': "a = 13106" by (simp only: outcome.inject)
  have "(2205::int) \<le> int (capacity reference_platform)" by (simp add: reference_platform_def)
  with m have "\<exists>xs. ?m = Returns xs \<and> int (length xs) = max 0 2205
      \<and> (\<forall>x \<in> set xs. - 13106 \<le> x \<and> x \<le> 13106)"
    unfolding n' a' by (simp only: if_True)
  then show ?thesis by (simp add: eat_sound_def)
qed

section \<open>Collisions (claim C2)\<close>

text \<open>
  Claim C2, as stated: when the computed new head is outside the grid or on the snake, the
  state after \<open>update\<close> is the state before it except for the mode. It fails for the
  current direction: \<open>update\<close> adopts the pending direction before it computes the new
  head (line 185), so a snake on the top row heading right, with a vote for up pending,
  ends the step with the direction up.
\<close>

theorem collision_changes_direction:
  "next_head wall_state = Some (15, - 1) \<and> \<not> in_grid (15, - 1)
   \<and> direction wall_state = (1, 0)
   \<and> update (sconst 0) wall_state =
       Returns (\<lparr>state = GameOver, snake = [(15, 0)], direction = (0, - 1), next_direction = (0, - 1),
                 food = (3, 3), score = 0, game_over = True, frame_count = 0\<rparr>, sconst 0, [Death])
   \<and> update (sconst 0) wall_state
       \<noteq> Returns (wall_state\<lparr>game_over := True, state := GameOver\<rparr>, sconst 0, [Death])"
  by (simp add: wall_state_def next_head_def in_grid_def update_def grid_consts)

text \<open>
  Claim C2, amended: on a collision \<open>update\<close> returns the state it was called in with
  the mode set to game over (the attribute \<open>state\<close> and the flag \<open>game_over\<close>) and
  the current direction replaced by the pending one; the snake, the food, the score, the
  pending direction and the frame counter are unchanged, the generator is not consumed,
  and the death tone is triggered once.
\<close>

theorem collision_keeps_game:
  assumes "next_head g = Some p" and "p \<in> set (snake g) \<or> \<not> in_grid p"
  shows "update rs g =
           Returns (g\<lparr>direction := next_direction g, game_over := True, state := GameOver\<rparr>, rs, [Death])"
  using assms by (rule update_collision)

text \<open>Claim C2, amended, at the state on the top row: the new head \<open>(15, -1)\<close> is off the grid.\<close>

theorem collision_keeps_game_witness:
  "next_head wall_state = Some (15, - 1) \<and> \<not> in_grid (15, - 1)
   \<and> update (sconst 0) wall_state =
       Returns (wall_state\<lparr>direction := next_direction wall_state, game_over := True, state := GameOver\<rparr>,
                sconst 0, [Death])"
  using collision_keeps_game[of wall_state "(15, - 1)" "sconst 0"]
  by (simp add: wall_state_def next_head_def in_grid_def)

section \<open>Growth and score (claim C3)\<close>

text \<open>
  Claim C3: in a state whose computed new head is in the grid and not on the snake,
  a step onto the food lengthens the snake by one and raises the score by one, and any
  other step keeps both. The step onto the food returns exactly when the generator
  draws a cell off the lengthened snake at some point; when it never does, the step stays
  in the loop of \<open>spawn_food\<close> for ever.
\<close>

theorem step_growth:
  assumes "next_head g = Some p" and "p \<notin> set (snake g)" and "in_grid p"
  shows "if p = food g
         then (if \<exists>n. draw rs n \<notin> set (p # snake g)
               then \<exists>g' rs'. update rs g = Returns (g', rs', [Eat])
                      \<and> length (snake g') = length (snake g) + 1 \<and> score g' = score g + 1
               else update rs g = Diverges)
         else \<exists>g'. update rs g = Returns (g', rs, [])
                \<and> length (snake g') = length (snake g) \<and> score g' = score g"
proof (cases "p = food g")
  case False
  with assms show ?thesis by (simp add: update_move)
next
  case True
  let ?g1 = "g\<lparr>direction := next_direction g, snake := p # snake g, score := score g + 1\<rparr>"
  have u: "update rs g = (case spawn_food rs ?g1 of None \<Rightarrow> Diverges
                         | Some (g2, rs2) \<Rightarrow> Returns (g2, rs2, [Eat]))"
    using assms True by (rule update_eat)
  show ?thesis
  proof (cases "\<exists>n. draw rs n \<notin> set (p # snake g)")
    case True
    then obtain n where "draw rs n \<notin> set (snake ?g1)" by auto
    from spawn_food_returns[OF this] obtain k where
      "spawn_food rs ?g1 = Some (?g1\<lparr>food := draw rs k\<rparr>, sdrop (2 * Suc k) rs)" by blast
    with u \<open>p = food g\<close> True show ?thesis by simp
  next
    case False
    then have "spawn_food rs ?g1 = None" by (simp add: spawn_food_None_iff)
    with u \<open>p = food g\<close> False show ?thesis by simp
  qed
qed

text \<open>Claim C3 at the state with the food in front of the head.\<close>

theorem step_growth_witness:
  "next_head eat_state = Some (16, 10) \<and> (16, 10) \<notin> set (snake eat_state) \<and> in_grid (16, 10)
   \<and> (16, 10) = food eat_state
   \<and> (\<exists>g' rs'. update (sconst 0) eat_state = Returns (g', rs', [Eat])
         \<and> length (snake g') = length (snake eat_state) + 1 \<and> score g' = score eat_state + 1)"
proof -
  have d: "\<exists>n. draw (sconst 0) n \<notin> set ((16, 10) # snake eat_state)"
    by (simp add: draw_sconst eat_state_def)
  have h: "next_head eat_state = Some (16, 10)" "(16, 10) \<notin> set (snake eat_state)" "in_grid (16, 10)"
    "(16, 10) = food eat_state"
    by (simp_all add: eat_state_def next_head_def in_grid_def grid_width_def grid_height_def cell_size_def)
  from step_growth[OF h(1-3), of "sconst 0"] d h show ?thesis by simp
qed

section \<open>The snake stays well formed (claim C4)\<close>

text \<open>
  Claim C4: the cells of the snake are pairwise distinct and there is at least one; every
  \<open>reset\<close> establishes this, every \<open>update\<close> that returns preserves it, and it
  holds in every reachable state.
\<close>

theorem snake_well_formed:
  "(\<forall>rs g g' rs'. reset rs g = Some (g', rs') \<longrightarrow> well_formed g')
   \<and> (\<forall>rs g g' rs' ts. well_formed g \<and> update rs g = Returns (g', rs', ts) \<longrightarrow> well_formed g')
   \<and> (\<forall>g. reachable g \<longrightarrow> well_formed g)"
proof (intro conjI allI impI)
  fix rs g g' rs'
  assume "reset rs g = Some (g', rs')"
  then show "well_formed g'" by (simp add: reset_inv)
next
  fix rs g g' rs' ts
  assume "well_formed g \<and> update rs g = Returns (g', rs', ts)"
  then show "well_formed g'" by (auto intro: update_well_formed)
next
  fix g
  assume "reachable g"
  then show "well_formed g" by (auto dest: reachable_inv simp: game_inv_def)
qed

text \<open>Claim C4 at the state after the start click and at the state one step later.\<close>

theorem snake_well_formed_witness:
  "reachable playing_state \<and> well_formed playing_state
   \<and> update (sconst 0) playing_state = Returns (playing_state\<lparr>snake := [(16, 10)]\<rparr>, sconst 0, [])
   \<and> well_formed (playing_state\<lparr>snake := [(16, 10)]\<rparr>)"
proof -
  have u: "update (sconst 0) playing_state = Returns (playing_state\<lparr>snake := [(16, 10)]\<rparr>, sconst 0, [])"
    by (simp add: update_def playing_state_def grid_consts)
  from snake_well_formed reachable_playing_state have w: "well_formed playing_state" by blast
  with snake_well_formed u have "well_formed (playing_state\<lparr>snake := [(16, 10)]\<rparr>)" by blast
  with u w reachable_playing_state show ?thesis by simp
qed

section \<open>No reversal (claim C1)\<close>

text \<open>
  Claim C1: the direction a step adopts is the pending vote, and it is never the opposite
  of the direction in force when the step is called. Take any reachable state, any
  sequence of polls from it (any events, any pointer positions) and the step after them.
  \<open>direction\<close> is assigned by \<open>update\<close> and \<open>reset\<close> only, so when the polls start
  in a state of a game in progress the direction in force is still the one of that
  state: the one the previous step adopted, or the initial one. Both channels are
  covered, since a poll is the event loop followed by the pointer vote.
\<close>

theorem no_reversal:
  assumes "reachable g" and "polls ps rs g = Returns (g1, rs1)"
    and "update rs1 g1 = Returns (g2, rs2, ts)"
  shows "direction g2 = next_direction g1 \<and> direction g2 \<noteq> opposite (direction g1)
         \<and> (state g = Playing \<longrightarrow> direction g1 = direction g \<and> direction g2 \<noteq> opposite (direction g))"
proof -
  from polls_reachable[OF assms(1,2)] have "reachable g1" .
  then have ok: "next_direction g1 \<noteq> opposite (direction g1)"
    by (auto dest: reachable_inv simp: game_inv_def dir_ok_def)
  from assms(3) have d: "direction g2 = next_direction g1"
    by (cases rule: update_Returns_cases) simp_all
  have "direction g1 = direction g" if "state g = Playing"
  proof -
    from polls_playing[OF that assms(2)] have "g1 = g\<lparr>next_direction := next_direction g1\<rparr>" by simp
    then show ?thesis by (metis game.select_convs(3) game.surjective game.update_convs(4))
  qed
  with ok d show ?thesis by auto
qed

text \<open>
  Claim C1 on a run: heading right, the player presses up while the pointer is to the
  left of the head. The key vote is taken, the pointer's vote for left is the reversal
  and is dropped, and the next step goes up.
\<close>

theorem no_reversal_witness:
  "reachable playing_state \<and> state playing_state = Playing
   \<and> polls [([KEYDOWN K_UP], (0, 0))] (sconst 0) playing_state
       = Returns (playing_state\<lparr>next_direction := (0, - 1)\<rparr>, sconst 0)
   \<and> update (sconst 0) (playing_state\<lparr>next_direction := (0, - 1)\<rparr>)
       = Returns (playing_state\<lparr>snake := [(15, 9)], direction := (0, - 1), next_direction := (0, - 1)\<rparr>,
                  sconst 0, [])
   \<and> direction (playing_state\<lparr>snake := [(15, 9)], direction := (0, - 1), next_direction := (0, - 1)\<rparr>)
       \<noteq> opposite (direction playing_state)"
proof -
  have p: "polls [([KEYDOWN K_UP], (0, 0))] (sconst 0) playing_state
             = Returns (playing_state\<lparr>next_direction := (0, - 1)\<rparr>, sconst 0)"
    by (simp add: handle_input_def handle_event_def menu_input_def key_input_def
          mouse_input_def mouse_dir_def playing_state_def grid_consts Let_def)
  have u: "update (sconst 0) (playing_state\<lparr>next_direction := (0, - 1)\<rparr>)
       = Returns (playing_state\<lparr>snake := [(15, 9)], direction := (0, - 1), next_direction := (0, - 1)\<rparr>,
                  sconst 0, [])"
    by (simp add: update_def playing_state_def grid_consts)
  have s: "state playing_state = Playing" by (simp add: playing_state_def)
  from no_reversal[OF reachable_playing_state p u] s p u reachable_playing_state
  show ?thesis by simp
qed

section \<open>Food placement (claim C5)\<close>

text \<open>
  Claim C5: right after every \<open>reset\<close> and right after every step that eats, the food
  is on no cell of the snake (and it is a cell of the grid), provided the resampling loop
  ends. The loop ends exactly when the generator draws a free cell at some point: a
  \<open>reset\<close> never returns only if every draw is the centre cell, an eating step never
  returns only if every draw is on the lengthened snake, and a generator that lets
  \<open>spawn_food\<close> end exists exactly when a cell of the grid is unoccupied.
\<close>

theorem food_off_snake:
  "(\<forall>g' rs'. reset rs g = Some (g', rs') \<longrightarrow> food g' \<notin> set (snake g') \<and> in_grid (food g'))
   \<and> (\<forall>g' rs'. update rs g = Returns (g', rs', [Eat]) \<longrightarrow>
         food g' \<notin> set (snake g') \<and> in_grid (food g'))
   \<and> (reset rs g = None \<longleftrightarrow> (\<forall>n. draw rs n = (grid_width div 2, grid_height div 2)))
   \<and> (update rs g = Diverges \<longleftrightarrow>
         (\<exists>p. next_head g = Some p \<and> p \<notin> set (snake g) \<and> in_grid p \<and> p = food g
              \<and> (\<forall>n. draw rs n \<in> set (p # snake g))))
   \<and> ((\<exists>c. in_grid c \<and> c \<notin> set (snake g)) \<longleftrightarrow> (\<exists>rs. spawn_food rs g \<noteq> None))"
proof (intro conjI allI impI)
  fix g' rs'
  assume r: "reset rs g = Some (g', rs')"
  then show "food g' \<notin> set (snake g')" by (rule reset_Some) simp
  from r show "in_grid (food g')" by (rule reset_Some) (simp add: draw_in_grid)
next
  fix g' rs'
  assume u: "update rs g = Returns (g', rs', [Eat])"
  then show "food g' \<notin> set (snake g')" by (cases rule: update_Returns_cases) simp_all
  from u show "in_grid (food g')" by (cases rule: update_Returns_cases) (simp_all add: draw_in_grid)
next
  show "reset rs g = None \<longleftrightarrow> (\<forall>n. draw rs n = (grid_width div 2, grid_height div 2))"
    by (rule reset_None_iff)
  show "update rs g = Diverges \<longleftrightarrow>
         (\<exists>p. next_head g = Some p \<and> p \<notin> set (snake g) \<and> in_grid p \<and> p = food g
              \<and> (\<forall>n. draw rs n \<in> set (p # snake g)))"
    by (rule update_Diverges_iff)
  show "(\<exists>c. in_grid c \<and> c \<notin> set (snake g)) \<longleftrightarrow> (\<exists>rs. spawn_food rs g \<noteq> None)"
    by (rule free_cell_iff)
qed

text \<open>Claim C5 on a reset and on the step that eats the food in front of the head.\<close>

theorem food_off_snake_witness:
  "reset (sconst 0) wall_state =
     Some (wall_state\<lparr>snake := [(15, 10)], direction := (1, 0), next_direction := (1, 0),
                       food := (0, 0)\<rparr>, sconst 0)
   \<and> food (wall_state\<lparr>snake := [(15, 10)], direction := (1, 0), next_direction := (1, 0),
                         food := (0, 0)\<rparr>)
       \<notin> set (snake (wall_state\<lparr>snake := [(15, 10)], direction := (1, 0), next_direction := (1, 0),
                         food := (0, 0)\<rparr>))
   \<and> update (sconst 0) eat_state =
       Returns (eat_state\<lparr>snake := [(16, 10), (15, 10)], score := 1, food := (0, 0)\<rparr>, sconst 0, [Eat])
   \<and> food (eat_state\<lparr>snake := [(16, 10), (15, 10)], score := 1, food := (0, 0)\<rparr>)
       \<notin> set (snake (eat_state\<lparr>snake := [(16, 10), (15, 10)], score := 1, food := (0, 0)\<rparr>))"
proof -
  have r: "reset (sconst 0) wall_state =
     Some (wall_state\<lparr>snake := [(15, 10)], direction := (1, 0), next_direction := (1, 0),
                       food := (0, 0)\<rparr>, sconst 0)"
    by (simp add: reset_sconst_0 wall_state_def)
  have u: "update (sconst 0) eat_state =
       Returns (eat_state\<lparr>snake := [(16, 10), (15, 10)], score := 1, food := (0, 0)\<rparr>, sconst 0, [Eat])"
    by (simp add: update_def eat_state_def grid_consts spawn_food_unfold draw_sconst)
  from food_off_snake[of "sconst 0" wall_state] r
  have 1: "food (wall_state\<lparr>snake := [(15, 10)], direction := (1, 0), next_direction := (1, 0),
                         food := (0, 0)\<rparr>)
       \<notin> set (snake (wall_state\<lparr>snake := [(15, 10)], direction := (1, 0), next_direction := (1, 0),
                         food := (0, 0)\<rparr>))"
    by blast
  from food_off_snake[of "sconst 0" eat_state] u
  have 2: "food (eat_state\<lparr>snake := [(16, 10), (15, 10)], score := 1, food := (0, 0)\<rparr>)
       \<notin> set (snake (eat_state\<lparr>snake := [(16, 10), (15, 10)], score := 1, food := (0, 0)\<rparr>))"
    by blast
  from r u 1 2 show ?thesis by blast
qed

section \<open>The simulation clock (claim C8)\<close>

text \<open>
  Claim C8: with 60 frames and 10 moves per second a move is due every
  \<open>60 div 10 = 6\<close> frames. In a pass of the main loop whose poll leaves the game in
  the menu or in game over, nothing changes: the counter is not advanced and no step is
  made. In the pass whose poll starts or restarts the game, \<open>reset\<close> sets the counter to
  0 and the same pass counts as the first frame of the interval, without a step. While
  playing, passes that leave the counter below 6 make no step and add one to the counter
  (and they do return when no quit event arrives), the pass that brings it to 6 calls
  \<open>update\<close> and leaves the counter at 0, and so six passes from counter 0 make exactly
  one step.
\<close>

theorem simulation_clock:
  "frames_per_move = fps div move_rate \<and> frames_per_move = 6
   \<and> (\<forall>g1 rs1. handle_input (fst inp) (snd inp) rs g = Returns (g1, rs1) \<and> state g1 \<noteq> Playing \<longrightarrow>
         g1 = g \<and> run_frame inp rs g = Returns (g, rs, [], False))
   \<and> (\<forall>g1 rs1. state g \<noteq> Playing \<and> handle_input (fst inp) (snd inp) rs g = Returns (g1, rs1)
                \<and> state g1 = Playing \<longrightarrow>
         frame_count g1 = 0 \<and> run_frame inp rs g = Returns (g1\<lparr>frame_count := 1\<rparr>, rs1, [], False))
   \<and> (\<forall>(inps :: (event list \<times> (int \<times> int)) list) g' rs' ts n. state g = Playing \<and> frame_count g + int (length inps) < frames_per_move
                \<and> run inps rs g = Returns (g', rs', ts, n) \<longrightarrow>
         n = 0 \<and> state g' = Playing \<and> frame_count g' = frame_count g + int (length inps))
   \<and> (\<forall>inps :: (event list \<times> (int \<times> int)) list. state g = Playing \<and> frame_count g + int (length inps) < frames_per_move
                \<and> snake g \<noteq> [] \<and> (\<forall>inp \<in> set inps. QUIT \<notin> set (fst inp)) \<longrightarrow>
         (\<exists>g'. run inps rs g = Returns (g', rs, [], 0)))
   \<and> (\<forall>g' rs' ts b. state g = Playing \<and> frames_per_move \<le> frame_count g + 1
                \<and> run_frame inp rs g = Returns (g', rs', ts, b) \<longrightarrow>
         b \<and> frame_count g' = 0)
   \<and> (\<forall>(inps :: (event list \<times> (int \<times> int)) list) g' rs' ts n. state g = Playing \<and> frame_count g = 0
                \<and> int (length inps) = frames_per_move \<and> run inps rs g = Returns (g', rs', ts, n) \<longrightarrow>
         n = 1 \<and> frame_count g' = 0)"
proof (intro conjI allI impI)
  show "frames_per_move = fps div move_rate" by (rule frames_per_move_def)
  show "frames_per_move = 6" by (rule frames_per_move_6)
next
  fix g1 rs1
  assume a: "handle_input (fst inp) (snd inp) rs g = Returns (g1, rs1) \<and> state g1 \<noteq> Playing"
  with handle_input_Returns[of "fst inp" "snd inp" rs g g1 rs1] have e: "g1 = g" "rs1 = rs" by auto
  then show "g1 = g" by simp
  from a e show "run_frame inp rs g = Returns (g, rs, [], False)"
    by (simp add: run_frame_unfold[of inp rs g g rs])
next
  fix g1 rs1
  assume a: "state g \<noteq> Playing \<and> handle_input (fst inp) (snd inp) rs g = Returns (g1, rs1)
             \<and> state g1 = Playing"
  with handle_input_Returns[of "fst inp" "snd inp" rs g g1 rs1] show c: "frame_count g1 = 0" by auto
  from a have h: "handle_input (fst inp) (snd inp) rs g = Returns (g1, rs1)" by simp
  from a c show "run_frame inp rs g = Returns (g1\<lparr>frame_count := 1\<rparr>, rs1, [], False)"
    by (simp add: run_frame_unfold[OF h] frames_per_move_6)
next
  fix inps :: "(event list \<times> (int \<times> int)) list" and g' rs' ts n
  assume a: "state g = Playing \<and> frame_count g + int (length inps) < frames_per_move
             \<and> run inps rs g = Returns (g', rs', ts, n)"
  then have "n = 0 \<and> ts = [] \<and> rs' = rs \<and> state g' = Playing \<and> snake g' = snake g
         \<and> frame_count g' = frame_count g + int (length inps)"
    by (intro run_waiting) simp_all
  then show "n = 0" "state g' = Playing" "frame_count g' = frame_count g + int (length inps)"
    by simp_all
next
  fix inps :: "(event list \<times> (int \<times> int)) list"
  assume "state g = Playing \<and> frame_count g + int (length inps) < frames_per_move
          \<and> snake g \<noteq> [] \<and> (\<forall>inp \<in> set inps. QUIT \<notin> set (fst inp))"
  then show "\<exists>g'. run inps rs g = Returns (g', rs, [], 0)"
    by (intro run_waiting_returns) simp_all
next
  fix g' rs' ts b
  assume "state g = Playing \<and> frames_per_move \<le> frame_count g + 1
          \<and> run_frame inp rs g = Returns (g', rs', ts, b)"
  then have "b \<and> frame_count g' = 0" by (intro run_frame_due[of g inp rs g' rs' ts b]) simp_all
  then show "b" "frame_count g' = 0" by simp_all
next
  fix inps :: "(event list \<times> (int \<times> int)) list" and g' rs' ts n
  assume "state g = Playing \<and> frame_count g = 0
          \<and> int (length inps) = frames_per_move \<and> run inps rs g = Returns (g', rs', ts, n)"
  then have "n = 1 \<and> frame_count g' = 0" by (intro run_one_interval[of g inps rs g' rs' ts n]) simp_all
  then show "n = 1" "frame_count g' = 0" by simp_all
qed

text \<open>
  Claim C8 on a run: the pass with the start click leaves the counter at 1 and makes no
  step; six passes from counter 0 make one step, which moves the head to \<open>(16, 10)\<close>.
\<close>

theorem simulation_clock_witness:
  "run_frame ([MOUSEBUTTONDOWN], (400, 210)) (sconst 0) start_state
     = Returns (playing_state\<lparr>frame_count := 1\<rparr>, sconst 0, [], False)
   \<and> run (replicate 6 ([], (400, 210))) (sconst 0) playing_state
     = Returns (playing_state\<lparr>snake := [(16, 10)]\<rparr>, sconst 0, [], 1)
   \<and> (1::nat) = 1 \<and> frame_count (playing_state\<lparr>snake := [(16, 10)]\<rparr>) = 0"
proof -
  have s: "state start_state \<noteq> Playing \<and> handle_input (fst ([MOUSEBUTTONDOWN], (400, 210)))
             (snd ([MOUSEBUTTONDOWN], (400, 210))) (sconst 0) start_state = Returns (playing_state, sconst 0)
           \<and> state playing_state = Playing"
    by (simp add: start_poll) (simp add: start_state_def playing_state_def)
  from simulation_clock[of "([MOUSEBUTTONDOWN], (400, 210))" "sconst 0" start_state] s
  have 1: "run_frame ([MOUSEBUTTONDOWN], (400, 210)) (sconst 0) start_state
     = Returns (playing_state\<lparr>frame_count := 1\<rparr>, sconst 0, [], False)" by blast
  have p: "state playing_state = Playing \<and> frame_count playing_state = 0
      \<and> int (length (replicate 6 ([]::event list, (400::int, 210::int)))) = frames_per_move
      \<and> run (replicate 6 ([], (400, 210))) (sconst 0) playing_state
          = Returns (playing_state\<lparr>snake := [(16, 10)]\<rparr>, sconst 0, [], 1)"
    by (simp add: six_frames frames_per_move_6) (simp add: playing_state_def)
  from simulation_clock[of _ "sconst 0" playing_state] p
  have 2: "(1::nat) = 1 \<and> frame_count (playing_state\<lparr>snake := [(16, 10)]\<rparr>) = 0" by blast
  from 1 2 six_frames show ?thesis by simp
qed

section \<open>The pointer's vote (claim C10)\<close>

text \<open>
  Claim C10: a poll in playing mode returns when there is no quit event, and whenever a
  poll ends in playing mode the pointer has voted: its vote is one of the four directions
  (there is no neutral zone), and unless that vote is the opposite of the current
  direction it is the pending direction after the poll, whatever the keys of the same
  poll voted. With the pointer exactly on the centre of the head's cell the vote is
  \<open>(0, -1)\<close>, up.
\<close>

theorem pointer_vote:
  "(state g = Playing \<and> snake g \<noteq> [] \<and> QUIT \<notin> set evs \<longrightarrow>
      (\<exists>g'. handle_input evs m rs g = Returns (g', rs) \<and> state g' = Playing))
   \<and> (\<forall>g' rs'. handle_input evs m rs g = Returns (g', rs') \<and> state g' = Playing \<longrightarrow>
        (\<exists>h t. snake g' = h # t
           \<and> is_direction (mouse_dir m h)
           \<and> (mouse_dir m h \<noteq> opposite (direction g') \<longrightarrow> next_direction g' = mouse_dir m h)
           \<and> (real_of_int (fst m) = real_of_int (fst h * cell_size) + real_of_int cell_size / 2
              \<and> real_of_int (snd m) = real_of_int (snd h * cell_size) + real_of_int cell_size / 2
              \<longrightarrow> mouse_dir m h = (0, - 1))
           \<and> (state g = Playing \<longrightarrow> direction g' = direction g \<and> snake g' = snake g)))"
proof (intro conjI allI impI)
  assume a: "state g = Playing \<and> snake g \<noteq> [] \<and> QUIT \<notin> set evs"
  then obtain g' where h: "handle_input evs m rs g = Returns (g', rs)"
    using handle_input_playing_returns[of g evs m rs] by blast
  from a handle_input_playing[OF _ h] have "g' = g\<lparr>next_direction := next_direction g'\<rparr>" by simp
  with a have "state g' = Playing" by (metis game.select_convs(1) game.surjective game.update_convs(4))
  with h show "\<exists>g'. handle_input evs m rs g = Returns (g', rs) \<and> state g' = Playing" by blast
next
  fix g' rs'
  assume a: "handle_input evs m rs g = Returns (g', rs') \<and> state g' = Playing"
  then obtain g1 where l: "event_loop evs (g, rs) = Returns (g1, rs')"
    and mi: "mouse_input m g1 = Returns g'"
    by (auto simp: handle_input_def split: outcome.splits)
  from mouse_input_Returns(1)[OF mi] have eq: "g' = g1\<lparr>next_direction := next_direction g'\<rparr>" .
  then have s1: "state g1 = Playing" using a
    by (metis game.select_convs(1) game.surjective game.update_convs(4))
  with mi obtain h t where ht: "snake g1 = h # t"
    by (cases "snake g1") (auto simp: mouse_input_def)
  from mi have g': "g' = (if mouse_dir m h \<noteq> opposite (direction g1)
                          then g1\<lparr>next_direction := mouse_dir m h\<rparr> else g1)"
    by (simp add: mouse_input_playing[OF s1 ht])
  then have sn: "snake g' = h # t" and d: "direction g' = direction g1" using ht by auto
  have v: "mouse_dir m h \<noteq> opposite (direction g') \<longrightarrow> next_direction g' = mouse_dir m h"
    using g' d by auto
  have c: "real_of_int (fst m) = real_of_int (fst h * cell_size) + real_of_int cell_size / 2
              \<and> real_of_int (snd m) = real_of_int (snd h * cell_size) + real_of_int cell_size / 2
              \<longrightarrow> mouse_dir m h = (0, - 1)"
    by (simp add: mouse_dir_def Let_def)
  have p: "state g = Playing \<longrightarrow> direction g' = direction g \<and> snake g' = snake g"
  proof
    assume pl: "state g = Playing"
    from a have "handle_input evs m rs g = Returns (g', rs')" by simp
    from handle_input_playing[OF pl this] have "g' = g\<lparr>next_direction := next_direction g'\<rparr>" by simp
    then show "direction g' = direction g \<and> snake g' = snake g"
      by (metis game.select_convs(2,3) game.surjective game.update_convs(4))
  qed
  from sn v c p mouse_dir_is_direction[of m h]
  show "\<exists>h t. snake g' = h # t
           \<and> is_direction (mouse_dir m h)
           \<and> (mouse_dir m h \<noteq> opposite (direction g') \<longrightarrow> next_direction g' = mouse_dir m h)
           \<and> (real_of_int (fst m) = real_of_int (fst h * cell_size) + real_of_int cell_size / 2
              \<and> real_of_int (snd m) = real_of_int (snd h * cell_size) + real_of_int cell_size / 2
              \<longrightarrow> mouse_dir m h = (0, - 1))
           \<and> (state g = Playing \<longrightarrow> direction g' = direction g \<and> snake g' = snake g)" by blast
qed

text \<open>
  Claim C10 on two polls: heading right with the up key pressed, a pointer straight below
  the head turns the pending direction to down, and a pointer on the centre of the head
  votes up.
\<close>

theorem pointer_vote_witness:
  "handle_input [KEYDOWN K_UP] (310, 400) (sconst 0) playing_state
     = Returns (playing_state\<lparr>next_direction := (0, 1)\<rparr>, sconst 0)
   \<and> mouse_dir (310, 400) (15, 10) = (0, 1)
   \<and> next_direction (playing_state\<lparr>next_direction := (0, 1)\<rparr>) = mouse_dir (310, 400) (15, 10)
   \<and> handle_input [KEYDOWN K_UP] (310, 210) (sconst 0) playing_state
     = Returns (playing_state\<lparr>next_direction := (0, - 1)\<rparr>, sconst 0)
   \<and> mouse_dir (310, 210) (15, 10) = (0, - 1)"
proof -
  have h: "handle_input [KEYDOWN K_UP] (310, 400) (sconst 0) playing_state
     = Returns (playing_state\<lparr>next_direction := (0, 1)\<rparr>, sconst 0)"
    by (simp add: handle_input_def handle_event_def menu_input_def key_input_def
          mouse_input_def mouse_dir_def playing_state_def grid_consts Let_def)
  have h2: "handle_input [KEYDOWN K_UP] (310, 210) (sconst 0) playing_state
     = Returns (playing_state\<lparr>next_direction := (0, - 1)\<rparr>, sconst 0)"
    by (simp add: handle_input_def handle_event_def menu_input_def key_input_def
          mouse_input_def mouse_dir_def playing_state_def grid_consts Let_def)
  have m: "mouse_dir (310, 400) (15, 10) = (0, 1)" "mouse_dir (310, 210) (15, 10) = (0, - 1)"
    by (simp_all add: mouse_dir_def grid_consts Let_def)
  have s: "state (playing_state\<lparr>next_direction := (0, 1)\<rparr>) = Playing"
    "snake (playing_state\<lparr>next_direction := (0, 1)\<rparr>) = [(15, 10)]"
    "mouse_dir (310, 400) (15, 10) \<noteq> opposite (direction (playing_state\<lparr>next_direction := (0, 1)\<rparr>))"
    by (simp_all add: playing_state_def m opposite_def)
  from pointer_vote[of playing_state "[KEYDOWN K_UP]" "(310, 400)" "sconst 0"] h s
  have "next_direction (playing_state\<lparr>next_direction := (0, 1)\<rparr>) = mouse_dir (310, 400) (15, 10)"
    by auto
  with h h2 m show ?thesis by simp
qed

section \<open>Count and range of the samples (claim C6)\<close>

text \<open>
  Claim C6, as stated: for every frequency, every volume in \<open>[0, 1]\<close>, every shape and
  decay flag and every positive sample rate, the synthesizer returns exactly
  \<^verbatim>\<open>round(duration * sample_rate)\<close> samples, each in \<open>[- peak, peak]\<close> with
  \<^verbatim>\<open>peak = round(32767 * volume)\<close>. It fails in the count and in the range. With the
  duration \<open>- 1\<close> at the rate 44100 the count is \<open>- 44100\<close> and the buffer returned is
  empty. With the frequency \<open>2 ^ 52 + 1\<close>, the duration 2, the volume 0.4 and the sawtooth
  shape, \<open>peak\<close> is 13107, \<open>max_amp\<close> is 13106, and the pass at index 44100, where \<open>t\<close> is 1,
  stores \<open>- 26212\<close>: \<^verbatim>\<open>0.5 + t * current_freq\<close> is halfway between two floats and rounds
  up to \<open>2 ^ 52 + 2\<close>, so the difference is \<open>- 1\<close> and the factor \<open>- 2\<close>.
\<close>

theorem tone_count_and_range_fail:
  "n_samples (PyInt (- 1)) 44100 = Returns (- 44100)
   \<and> make_sound reference_platform (PyInt 440) (PyInt (- 1)) (PyFloat (rnd 0.5)) ''sine'' False 44100
       = Returns []
   \<and> n_samples (PyInt 2) 44100 = Returns 88200
   \<and> max_amp (PyFloat (rnd 0.4)) = Returns 13106
   \<and> peak (PyFloat (rnd 0.4)) = Returns 13107
   \<and> sample reference_platform (PyInt 4503599627370497) (PyInt 2) 13106 ''sawtooth'' False 44100 44100
       = Returns (- 26212)"
proof -
  have 1: "n_samples (PyInt (- 1)) 44100 = Returns (- 44100)" by (simp add: n_samples_int)
  have m: "max_amp (PyFloat (rnd 0.5)) = Returns 16383" by (simp add: float_eval)
  have 2: "make_sound reference_platform (PyInt 440) (PyInt (- 1)) (PyFloat (rnd 0.5)) ''sine'' False 44100
       = Returns []"
    using 1 m by (simp add: make_sound_def reference_platform_def)
  have 3: "n_samples (PyInt 2) 44100 = Returns 88200" by (simp add: n_samples_int)
  have 4: "sample reference_platform (PyInt 4503599627370497) (PyInt 2) 13106 ''sawtooth'' False 44100 44100
       = Returns (- 26212)"
    by (simp add: sample_def sample_time_def current_freq_def wave_def store_def float_eval)
  from 1 2 3 4 eat_max_amp eat_peak show ?thesis by simp
qed

text \<open>
  Claim C6, amended: for a volume in \<open>[0, 1]\<close>, a duration of magnitude at most \<open>2 ^ 20\<close>
  seconds, a frequency of magnitude at most \<open>2 ^ 16\<close> Hz, a sample rate below \<open>2 ^ 31\<close>,
  every shape and decay flag, and a sine of the C library that stays in \<open>[- 1, 1]\<close>: the
  count \<^verbatim>\<open>n_samples = int(round(duration * sample_rate))\<close> and the amplitude
  \<^verbatim>\<open>max_amp = int(32767 * volume)\<close> are computed without an exception, and
  \<open>0 \<le> max_amp \<le> peak \<le> 32767\<close>. If the count is within the capacity of the platform, the
  call returns \<open>max 0 n_samples\<close> samples, each in \<open>[- max_amp, max_amp]\<close> and so in
  \<open>[- peak, peak]\<close>; otherwise it raises \<^verbatim>\<open>MemoryError\<close>.
\<close>

theorem tone_count_and_range:
  assumes "num_value volume = Some v" and "0 \<le> v" and "v \<le> 1"
    and "num_value duration = Some r" and "\<bar>r\<bar> \<le> 2 ^ 20"
    and "num_value freq = Some f" and "\<bar>f\<bar> \<le> 2 ^ 16"
    and "sample_rate < 2 ^ 31"
    and "\<forall>x. \<bar>libm_sin pf x\<bar> \<le> 1"
  shows "\<exists>n a p. n_samples duration sample_rate = Returns n
      \<and> max_amp volume = Returns a \<and> peak volume = Returns p \<and> 0 \<le> a \<and> a \<le> p \<and> p \<le> 32767
      \<and> (if n \<le> int (capacity pf)
          then \<exists>xs. make_sound pf freq duration volume shape decay sample_rate = Returns xs
                 \<and> int (length xs) = max 0 n \<and> (\<forall>x \<in> set xs. - a \<le> x \<and> x \<le> a)
          else make_sound pf freq duration volume shape decay sample_rate = Raises MemoryError)"
  using assms by (rule make_sound_total)

text \<open>
  Claim C6, amended, at the tone for eating on the reference platform: the frequency 1200,
  the duration 0.05 and the volume 0.4 as floats, the square shape, no decay, the rate
  44100. The call returns 2205 samples, each in \<open>[- 13106, 13106]\<close>.
\<close>

theorem tone_count_and_range_witness:
  "num_value (PyFloat (rnd 0.4)) = Some (3602879701896397 / 2 ^ 53)
   \<and> num_value (PyFloat (rnd 0.05)) = Some (3602879701896397 / 2 ^ 56)
   \<and> num_value (PyInt 1200) = Some 1200
   \<and> n_samples (PyFloat (rnd 0.05)) 44100 = Returns 2205
   \<and> max_amp (PyFloat (rnd 0.4)) = Returns 13106
   \<and> peak (PyFloat (rnd 0.4)) = Returns 13107
   \<and> (\<exists>xs. eat_sound reference_platform = Returns xs \<and> length xs = 2205
        \<and> list_all (\<lambda>x. - 13106 \<le> x \<and> x \<le> 13106) xs)"
proof -
  have v: "num_value (PyFloat (rnd 0.4)) = Some (3602879701896397 / 2 ^ 53)"
    by (simp only: rnd_04 num_value.simps)
  have r: "num_value (PyFloat (rnd 0.05)) = Some (3602879701896397 / 2 ^ 56)"
    by (simp only: rnd_005 num_value.simps)
  have f: "num_value (PyInt 1200) = Some 1200" by simp
  have s: "\<forall>x. \<bar>libm_sin reference_platform x\<bar> \<le> 1" by (simp add: libm_sin_reference)
  let ?m = "make_sound reference_platform (PyInt 1200) (PyFloat (rnd 0.05)) (PyFloat (rnd 0.4))
    ''square'' False 44100"
  from tone_count_and_range[OF v _ _ r _ f _ _ s, of 44100 "''square''" False]
  obtain n a where n: "n_samples (PyFloat (rnd 0.05)) 44100 = Returns n"
    and a: "max_amp (PyFloat (rnd 0.4)) = Returns a"
    and m: "if n \<le> int (capacity reference_platform)
          then \<exists>xs. ?m = Returns xs \<and> int (length xs) = max 0 n \<and> (\<forall>x \<in> set xs. - a \<le> x \<and> x \<le> a)
          else ?m = Raises MemoryError"
    by auto
  from n eat_n_samples have n': "n = 2205" by (simp only: outcome.inject)
  from a eat_max_amp have a': "a = 13106" by (simp only: outcome.inject)
  have "(2205::int) \<le> int (capacity reference_platform)" by (simp add: reference_platform_def)
  with m have "\<exists>xs. ?m = Returns xs \<and> int (length xs) = max 0 2205
      \<and> (\<forall>x \<in> set xs. - 13106 \<le> x \<and> x \<le> 13106)"
    unfolding n' a' by (simp only: if_True)
  then obtain xs where "?m = Returns xs" "int (length xs) = max 0 2205"
    "\<forall>x \<in> set xs. - 13106 \<le> x \<and> x \<le> 13106" by blast
  then have "eat_sound reference_platform = Returns xs \<and> length xs = 2205
        \<and> list_all (\<lambda>x. - 13106 \<le> x \<and> x \<le> 13106) xs"
    by (simp add: eat_sound_def list_all_iff)
  then have "\<exists>xs. eat_sound reference_platform = Returns xs \<and> length xs = 2205
        \<and> list_all (\<lambda>x. - 13106 \<le> x \<and> x \<le> 13106) xs" ..
  with v r f eat_n_samples eat_max_amp eat_peak show ?thesis by simp
qed

section \<open>The first sample of a square wave (claim C7)\<close>

text \<open>
  Claim C7, as stated: the square wave at sample index 0, with a frequency above 0,
  yields \<open>+ peak\<close>. It fails for the tone for eating, of frequency 1200: at index 0 the
  time is 0, the sine of 0 is 0, which is not \<^verbatim>\<open>> 0\<close>, and line 51 gives \<^verbatim>\<open>-max_amp\<close>,
  which is \<open>- 13106\<close>, where \<open>peak\<close> is 13107.
\<close>

theorem square_first_sample_not_peak:
  "n_samples (PyFloat (rnd 0.05)) 44100 = Returns 2205
   \<and> max_amp (PyFloat (rnd 0.4)) = Returns 13106
   \<and> peak (PyFloat (rnd 0.4)) = Returns 13107
   \<and> sample reference_platform (PyInt 1200) (PyFloat (rnd 0.05)) 13106 ''square'' False 44100 0
       = Returns (- 13106)"
  by (simp add: eat_n_samples eat_max_amp eat_peak) (simp add: sample_def sample_time_def current_freq_def angle_def wave_def store_def float_eval)

text \<open>
  Claim C7, amended: for a volume in \<open>[0, 1]\<close>, a duration and a sample rate below \<open>2 ^ 31\<close>
  for which the count of line 36 is computed and is positive and below \<open>2 ^ 63\<close>, a
  frequency that is a float or an \<^verbatim>\<open>int\<close> that converts to one, and either decay flag: the
  pass of the loop at index 0 stores \<^verbatim>\<open>-max_amp\<close>, where \<^verbatim>\<open>max_amp = int(32767 * volume)\<close>;
  and whenever the call returns, its buffer is not empty and its first item is
  \<^verbatim>\<open>-max_amp\<close>.
\<close>

theorem square_starts_low:
  assumes "num_value volume = Some v" and "0 \<le> v" and "v \<le> 1"
    and "n_samples duration sample_rate = Returns n" and "0 < n" and "n < 2 ^ 63"
    and "sample_rate < 2 ^ 31"
    and "as_float freq = Returns f"
  shows "\<exists>a. max_amp volume = Returns a
           \<and> sample pf freq duration a ''square'' decay sample_rate 0 = Returns (- a)
           \<and> (\<forall>xs. make_sound pf freq duration volume ''square'' decay sample_rate = Returns xs
                  \<longrightarrow> xs \<noteq> [] \<and> xs ! 0 = - a)"
proof -
  from max_amp_range[OF assms(1-3)] obtain a where a: "max_amp volume = Returns a" "0 \<le> a" "a \<le> 32767"
    by auto
  have s: "sample pf freq duration a ''square'' decay sample_rate 0 = Returns (- a)"
    using assms(4-7) a(2,3) assms(8) by (rule first_square_sample)
  have "xs \<noteq> [] \<and> xs ! 0 = - a"
    if "make_sound pf freq duration volume ''square'' decay sample_rate = Returns xs" for xs
  proof -
    from that assms(4) a(1)
    have "fill (sample pf freq duration a ''square'' decay sample_rate) [0 ..< nat n] = Returns xs"
      by (simp add: make_sound_def split: if_splits)
    from fill_Returns_nth[OF this] assms(5)
    have "length xs = nat n" and "sample pf freq duration a ''square'' decay sample_rate ([0 ..< nat n] ! 0) = Returns (xs ! 0)"
      by simp_all
    with assms(5) s show ?thesis by auto
  qed
  with a(1) s show ?thesis by blast
qed

text \<open>
  Claim C7, amended, at the tone for eating on the reference platform: the call returns,
  and the first of its 2205 samples is \<open>- 13106\<close>.
\<close>

theorem square_starts_low_witness:
  "num_value (PyFloat (rnd 0.4)) = Some (3602879701896397 / 2 ^ 53)
   \<and> n_samples (PyFloat (rnd 0.05)) 44100 = Returns 2205
   \<and> as_float (PyInt 1200) = Returns (Finite 1200)
   \<and> max_amp (PyFloat (rnd 0.4)) = Returns 13106
   \<and> sample reference_platform (PyInt 1200) (PyFloat (rnd 0.05)) 13106 ''square'' False 44100 0
       = Returns (- 13106)
   \<and> (\<exists>xs. eat_sound reference_platform = Returns xs \<and> xs \<noteq> [] \<and> xs ! 0 = - 13106)"
proof -
  have v: "num_value (PyFloat (rnd 0.4)) = Some (3602879701896397 / 2 ^ 53)"
    by (simp only: rnd_04 num_value.simps)
  have f: "as_float (PyInt 1200) = Returns (Finite 1200)" using to_float_exact[of 1200] by simp
  from square_starts_low[OF v _ _ eat_n_samples _ _ _ f, of reference_platform False]
  obtain a where a: "max_amp (PyFloat (rnd 0.4)) = Returns a"
    "sample reference_platform (PyInt 1200) (PyFloat (rnd 0.05)) a ''square'' False 44100 0 = Returns (- a)"
    "\<forall>xs. make_sound reference_platform (PyInt 1200) (PyFloat (rnd 0.05)) (PyFloat (rnd 0.4))
        ''square'' False 44100 = Returns xs \<longrightarrow> xs \<noteq> [] \<and> xs ! 0 = - a"
    by auto
  from a(1) eat_max_amp have a': "a = 13106" by (simp only: outcome.inject)
  from eat_sound_returns obtain xs where xs: "eat_sound reference_platform = Returns xs" by blast
  then have "make_sound reference_platform (PyInt 1200) (PyFloat (rnd 0.05)) (PyFloat (rnd 0.4))
        ''square'' False 44100 = Returns xs"
    by (simp only: eat_sound_def)
  with a(3) have "xs \<noteq> [] \<and> xs ! 0 = - a" by blast
  with xs a' have "\<exists>xs. eat_sound reference_platform = Returns xs \<and> xs \<noteq> [] \<and> xs ! 0 = - 13106"
    by blast
  with a(2) a' v f eat_n_samples eat_max_amp show ?thesis by blast
qed

section \<open>Zero and negative durations (claim C9)\<close>

text \<open>
  Claim C9, as stated: for every frequency, volume, shape, decay flag and sample rate, a
  zero or negative duration gives the empty buffer and no error. It fails for the duration
  \<^verbatim>\<open>-210000000000000.0\<close> at the rate 44100: the count of line 36 is
  \<open>- 9261000000000000000\<close>, which is below \<open>- (2 ^ 63)\<close>, and \<^verbatim>\<open>[0] * n_samples\<close> on line 39
  raises \<^verbatim>\<open>OverflowError\<close>.
\<close>

theorem no_samples_overflow:
  "num_value (PyFloat (Finite (- 210000000000000))) = Some (- 210000000000000)
   \<and> n_samples (PyFloat (Finite (- 210000000000000))) 44100 = Returns (- 9261000000000000000)
   \<and> make_sound reference_platform (PyInt 440) (PyFloat (Finite (- 210000000000000))) (PyFloat (rnd 0.5))
        ''sine'' False 44100 = Raises OverflowError"
  by (simp add: make_sound_def float_eval)

text \<open>
  Claim C9, amended: for a finite duration that is zero or negative with
  \<open>duration * sample_rate\<close> not below \<open>- (2 ^ 63)\<close>, a sample rate below \<open>2 ^ 31\<close>, a volume
  for which \<^verbatim>\<open>int(32767 * volume)\<close> on line 40 is computed without an exception, and every
  frequency, shape and decay flag: the call returns the empty buffer and raises nothing.
  No pass of the loop runs: with the duration 0 and a positive sample rate, a pass at
  index 0 with decay would raise \<^verbatim>\<open>ZeroDivisionError\<close> in \<^verbatim>\<open>t / duration\<close>.
\<close>

theorem no_samples:
  assumes "num_value duration = Some r" and "r \<le> 0" and "- (2 ^ 63) \<le> r * real sample_rate"
    and "sample_rate < 2 ^ 31" and "max_amp volume = Returns a"
  shows "make_sound pf freq duration volume shape decay sample_rate = Returns []
         \<and> (r = 0 \<and> 0 < sample_rate \<longrightarrow>
              sample pf freq duration a shape True sample_rate 0 = Raises ZeroDivisionError)"
proof
  from n_samples_nonpos[OF assms(1-4)] obtain n where
    n: "n_samples duration sample_rate = Returns n" "- (2 ^ 63) \<le> n" "n \<le> 0" by blast
  then have "\<not> (n < - (2 ^ 63) \<or> 2 ^ 63 \<le> n)" "\<not> int (capacity pf) < n" by simp_all
  with n assms(5) show "make_sound pf freq duration volume shape decay sample_rate = Returns []"
    by (simp add: make_sound_def)
  show "r = 0 \<and> 0 < sample_rate \<longrightarrow>
          sample pf freq duration a shape True sample_rate 0 = Raises ZeroDivisionError"
  proof
    assume z: "r = 0 \<and> 0 < sample_rate"
    with assms(1) have "as_float duration = Returns (Finite 0)"
      by (cases duration rule: num_value.cases) simp_all
    with z show "sample pf freq duration a shape True sample_rate 0 = Raises ZeroDivisionError"
      by (simp add: sample_def sample_time_def current_freq_def angle_def wave_def store_def to_float_sample_rate[OF assms(4)])
  qed
qed

text \<open>
  Claim C9, amended, at the tone of the game over (frequency 400, volume 0.5, sawtooth,
  decay, rate 44100) with the duration \<^verbatim>\<open>0.0\<close>, where the division would raise, and with
  the duration \<open>- 1\<close>: the buffer is empty.
\<close>

theorem no_samples_witness:
  "num_value (PyFloat (Finite 0)) = Some 0 \<and> max_amp (PyFloat (rnd 0.5)) = Returns 16383
   \<and> make_sound reference_platform (PyInt 400) (PyFloat (Finite 0)) (PyFloat (rnd 0.5)) ''sawtooth'' True 44100
       = Returns []
   \<and> sample reference_platform (PyInt 400) (PyFloat (Finite 0)) 16383 ''sawtooth'' True 44100 0
       = Raises ZeroDivisionError
   \<and> make_sound reference_platform (PyInt 400) (PyInt (- 1)) (PyFloat (rnd 0.5)) ''sawtooth'' True 44100
       = Returns []"
proof -
  have m: "max_amp (PyFloat (rnd 0.5)) = Returns 16383" by (simp add: float_eval)
  have 1: "num_value (PyFloat (Finite 0)) = Some 0" by simp
  have 2: "num_value (PyInt (- 1)) = Some (- 1)" by simp
  from no_samples[OF 1 _ _ _ m, of 44100 reference_platform "PyInt 400" "''sawtooth''" True]
    no_samples[OF 2 _ _ _ m, of 44100 reference_platform "PyInt 400" "''sawtooth''" True]
    m show ?thesis by simp
qed

end
